theory Spec2Isabelle
  imports Main "HOL-Library.AList" "HOL-Library.Char_ord" "HOL-Library.List_Lexorder"
begin

section \<open>The relational store (server.js and its SQLite-only variant)\<close>

text \<open>
  The server keeps two tables, \<^verbatim>\<open>users(username PRIMARY KEY, password NOT NULL)\<close> and
  \<^verbatim>\<open>checkins(id, username NOT NULL, date NOT NULL, activity NOT NULL)\<close> with
  \<^verbatim>\<open>FOREIGN KEY (username) REFERENCES users(username) ON DELETE CASCADE\<close>.
  Both engines enforce what the schema declares (PostgreSQL always does, and the SQLite
  driver used here has foreign keys switched on), so a check-in row can only be inserted
  for a username that has an account row.
  A table is the list of its rows in insertion order, which is the order a
  \<^verbatim>\<open>SELECT\<close> without \<^verbatim>\<open>ORDER BY\<close> scans them in. The surrogate column \<^verbatim>\<open>id\<close> is
  left out: no handler reads it (the one \<^verbatim>\<open>SELECT *\<close> is only tested for a row being there).

  A connection holds the two tables, the snapshot taken by \<^verbatim>\<open>BEGIN\<close> (if a transaction is
  open) and a schedule of transient failures: every data statement consumes one flag of the
  schedule and throws when the flag is set. This makes every \<^verbatim>\<open>catch\<close> branch of the
  handlers a branch of the model. \<^verbatim>\<open>BEGIN\<close>, \<^verbatim>\<open>COMMIT\<close> and \<^verbatim>\<open>ROLLBACK\<close> themselves are
  taken to be reliable.
\<close>

type_synonym user_row = "string \<times> string"
type_synonym checkin_row = "string \<times> string \<times> string"

record conn =
  tbl_users :: "user_row list"
  tbl_checkins :: "checkin_row list"
  saved :: "(user_row list \<times> checkin_row list) option"
  faults :: "bool list"

datatype error =
    TransientStoreError
  | PrimaryKeyViolation
  | ForeignKeyViolation
  | NotNullViolation
  | TypeError
  | OutsideModel

text \<open>
  \<open>TypeError\<close> is the exception a handler's own JavaScript throws (it ends in the same
  \<^verbatim>\<open>catch\<close>, answered with 500). \<open>OutsideModel\<close> is no answer of the server: it marks the one
  place, described with the snapshot below, where this theory stops following the code.
\<close>

text \<open>The answers of the HTTP handlers: 200, the two 400 answers of \<^verbatim>\<open>/api/checkin\<close>
  (a missing field; "Already checked in for this activity today", the specification's
  \<^verbatim>\<open>Conflict\<close>) and 500 with the store's error.\<close>

datatype response = Success | InvalidInput | Conflict | StoreFailure error

definition next_fault :: "conn \<Rightarrow> bool \<times> conn" where
  "next_fault c = (case faults c of [] \<Rightarrow> (False, c) | f # fs \<Rightarrow> (f, c\<lparr>faults := fs\<rparr>))"

text \<open>\<^verbatim>\<open>BEGIN\<close>, \<^verbatim>\<open>COMMIT\<close>, \<^verbatim>\<open>ROLLBACK\<close>.\<close>

definition begin_txn :: "conn \<Rightarrow> conn" where
  "begin_txn c = c\<lparr>saved := Some (tbl_users c, tbl_checkins c)\<rparr>"

definition commit_txn :: "conn \<Rightarrow> conn" where
  "commit_txn c = c\<lparr>saved := None\<rparr>"

definition rollback_txn :: "conn \<Rightarrow> conn" where
  "rollback_txn c =
     (case saved c of
        None \<Rightarrow> c
      | Some (us, cs) \<Rightarrow> c\<lparr>tbl_users := us, tbl_checkins := cs, saved := None\<rparr>)"

text \<open>\<^verbatim>\<open>SELECT username, password FROM users\<close> and
  \<^verbatim>\<open>SELECT username, date, activity FROM checkins\<close>.\<close>

definition sql_select_users :: "conn \<Rightarrow> (error + user_row list) \<times> conn" where
  "sql_select_users c =
     (case next_fault c of
        (True, c1) \<Rightarrow> (Inl TransientStoreError, c1)
      | (False, c1) \<Rightarrow> (Inr (tbl_users c1), c1))"

definition sql_select_checkins :: "conn \<Rightarrow> (error + checkin_row list) \<times> conn" where
  "sql_select_checkins c =
     (case next_fault c of
        (True, c1) \<Rightarrow> (Inl TransientStoreError, c1)
      | (False, c1) \<Rightarrow> (Inr (tbl_checkins c1), c1))"

text \<open>\<^verbatim>\<open>SELECT * FROM checkins WHERE username = ? AND date = ? AND activity = ?\<close>, first row.\<close>

definition sql_select_checkin ::
  "string \<Rightarrow> string \<Rightarrow> string \<Rightarrow> conn \<Rightarrow> (error + checkin_row option) \<times> conn" where
  "sql_select_checkin username date activity c =
     (case next_fault c of
        (True, c1) \<Rightarrow> (Inl TransientStoreError, c1)
      | (False, c1) \<Rightarrow>
          (Inr (find (\<lambda>r. r = (username, date, activity)) (tbl_checkins c1)), c1))"

text \<open>\<^verbatim>\<open>INSERT INTO users (username, password) VALUES (?, ?)\<close>: the password bound may be
  missing (\<^verbatim>\<open>undefined\<close> binds as NULL), the username may be taken.\<close>

definition sql_insert_user :: "string \<Rightarrow> string option \<Rightarrow> conn \<Rightarrow> error option \<times> conn" where
  "sql_insert_user username pw c =
     (case next_fault c of
        (True, c1) \<Rightarrow> (Some TransientStoreError, c1)
      | (False, c1) \<Rightarrow>
          (case pw of
             None \<Rightarrow> (Some NotNullViolation, c1)
           | Some p \<Rightarrow>
               if username \<in> fst ` set (tbl_users c1) then (Some PrimaryKeyViolation, c1)
               else (None, c1\<lparr>tbl_users := tbl_users c1 @ [(username, p)]\<rparr>)))"

text \<open>\<^verbatim>\<open>INSERT INTO checkins (username, date, activity) VALUES (?, ?, ?)\<close>: the foreign key
  asks for an account row of that username.\<close>

definition sql_insert_checkin :: "string \<Rightarrow> string \<Rightarrow> string \<Rightarrow> conn \<Rightarrow> error option \<times> conn" where
  "sql_insert_checkin username date activity c =
     (case next_fault c of
        (True, c1) \<Rightarrow> (Some TransientStoreError, c1)
      | (False, c1) \<Rightarrow>
          if username \<notin> fst ` set (tbl_users c1) then (Some ForeignKeyViolation, c1)
          else (None, c1\<lparr>tbl_checkins := tbl_checkins c1 @ [(username, date, activity)]\<rparr>))"

text \<open>\<^verbatim>\<open>DELETE FROM checkins WHERE username = ? AND date = ? AND activity = ?\<close>.\<close>

definition sql_delete_checkin :: "string \<Rightarrow> string \<Rightarrow> string \<Rightarrow> conn \<Rightarrow> error option \<times> conn" where
  "sql_delete_checkin username date activity c =
     (case next_fault c of
        (True, c1) \<Rightarrow> (Some TransientStoreError, c1)
      | (False, c1) \<Rightarrow>
          (None, c1\<lparr>tbl_checkins :=
                      filter (\<lambda>r. r \<noteq> (username, date, activity)) (tbl_checkins c1)\<rparr>))"

text \<open>\<^verbatim>\<open>DELETE FROM checkins WHERE username = ?\<close>.\<close>

definition sql_delete_checkins_of :: "string \<Rightarrow> conn \<Rightarrow> error option \<times> conn" where
  "sql_delete_checkins_of username c =
     (case next_fault c of
        (True, c1) \<Rightarrow> (Some TransientStoreError, c1)
      | (False, c1) \<Rightarrow>
          (None, c1\<lparr>tbl_checkins := filter (\<lambda>r. fst r \<noteq> username) (tbl_checkins c1)\<rparr>))"

text \<open>\<^verbatim>\<open>DELETE FROM users WHERE username = ?\<close>, with the cascade of the foreign key.\<close>

definition sql_delete_user :: "string \<Rightarrow> conn \<Rightarrow> error option \<times> conn" where
  "sql_delete_user username c =
     (case next_fault c of
        (True, c1) \<Rightarrow> (Some TransientStoreError, c1)
      | (False, c1) \<Rightarrow>
          (None, c1\<lparr>tbl_users := filter (\<lambda>r. fst r \<noteq> username) (tbl_users c1),
                     tbl_checkins := filter (\<lambda>r. fst r \<noteq> username) (tbl_checkins c1)\<rparr>))"

text \<open>\<^verbatim>\<open>DELETE FROM checkins\<close> and \<^verbatim>\<open>DELETE FROM users\<close> (again cascading).\<close>

definition sql_delete_all_checkins :: "conn \<Rightarrow> error option \<times> conn" where
  "sql_delete_all_checkins c =
     (case next_fault c of
        (True, c1) \<Rightarrow> (Some TransientStoreError, c1)
      | (False, c1) \<Rightarrow> (None, c1\<lparr>tbl_checkins := []\<rparr>))"

definition sql_delete_all_users :: "conn \<Rightarrow> error option \<times> conn" where
  "sql_delete_all_users c =
     (case next_fault c of
        (True, c1) \<Rightarrow> (Some TransientStoreError, c1)
      | (False, c1) \<Rightarrow> (None, c1\<lparr>tbl_users := [], tbl_checkins := []\<rparr>))"

subsection \<open>\<^verbatim>\<open>POST /api/checkin\<close> and \<^verbatim>\<open>DELETE /api/checkin\<close>\<close>

text \<open>A field of the request body is falsy when it is the empty string.\<close>

definition post_api_checkin :: "string \<Rightarrow> string \<Rightarrow> string \<Rightarrow> conn \<Rightarrow> response \<times> conn" where
  "post_api_checkin username date activity c =
     (if username = [] \<or> date = [] \<or> activity = [] then (InvalidInput, c)
      else
        (case sql_select_checkin username date activity c of
           (Inl e, c1) \<Rightarrow> (StoreFailure e, c1)
         | (Inr (Some existing), c1) \<Rightarrow> (Conflict, c1)
         | (Inr None, c1) \<Rightarrow>
             (case sql_insert_checkin username date activity c1 of
                (Some e, c2) \<Rightarrow> (StoreFailure e, c2)
              | (None, c2) \<Rightarrow> (Success, c2))))"

definition delete_api_checkin :: "string \<Rightarrow> string \<Rightarrow> string \<Rightarrow> conn \<Rightarrow> response \<times> conn" where
  "delete_api_checkin username date activity c =
     (if username = [] \<or> date = [] \<or> activity = [] then (InvalidInput, c)
      else
        (case sql_delete_checkin username date activity c of
           (Some e, c1) \<Rightarrow> (StoreFailure e, c1)
         | (None, c1) \<Rightarrow> (Success, c1)))"

subsection \<open>\<^verbatim>\<open>DELETE /api/user/:username\<close>\<close>

text \<open>Two statements, the check-ins first, with no \<^verbatim>\<open>BEGIN\<close> around them; the first statement
  that throws ends the handler in its \<^verbatim>\<open>catch\<close>.\<close>

definition delete_api_user :: "string \<Rightarrow> conn \<Rightarrow> response \<times> conn" where
  "delete_api_user username c =
     (case sql_delete_checkins_of username c of
        (Some e, c1) \<Rightarrow> (StoreFailure e, c1)
      | (None, c1) \<Rightarrow>
          (case sql_delete_user username c1 of
             (Some e, c2) \<Rightarrow> (StoreFailure e, c2)
           | (None, c2) \<Rightarrow> (Success, c2)))"

subsection \<open>The snapshot: \<^verbatim>\<open>GET /api/users\<close> and \<^verbatim>\<open>GET /api/export\<close>\<close>

text \<open>
  A day's value is an array of activity codes or, in legacy data, one bare code.
\<close>

datatype day_value = Str string | Arr "string list"

record 'd user_data =
  password :: string
  checkins :: "(string \<times> 'd) list"

type_synonym server_snapshot = "(string \<times> string list user_data) list"
type_synonym snapshot = "(string \<times> day_value user_data) list"

text \<open>
  Both handlers build the answer in a plain object \<^verbatim>\<open>usersData = {}\<close>, and each user's
  days in a plain object \<^verbatim>\<open>checkins: {}\<close>. What the code does with them is what JavaScript
  does with any plain object:

  \<^item> The own properties are enumerated (by \<^verbatim>\<open>JSON.stringify\<close> and \<^verbatim>\<open>Object.entries\<close>) with the
    names that are array indices first, in ascending numeric order, and the other names
    after them in the order they were created. An array index is the decimal numeral,
    without leading zero, of a number below \<open>2\<^sup>3\<^sup>2 - 1\<close>.
  \<^item> \<^verbatim>\<open>o[k]\<close> reads an own property, and otherwise what the object inherits: from
    \<^verbatim>\<open>Object.prototype\<close> its methods (functions, hence truthy) and under the name
    \<^verbatim>\<open>__proto__\<close> the prototype itself.
  \<^item> \<^verbatim>\<open>o[k] = v\<close> creates or overwrites an own property, except under the name
    \<^verbatim>\<open>__proto__\<close>, where it makes the object \<open>v\<close> the prototype of \<open>o\<close> and creates nothing.
\<close>

definition digit :: "char \<Rightarrow> bool" where
  "digit ch \<longleftrightarrow> 48 \<le> (of_char ch :: nat) \<and> (of_char ch :: nat) \<le> 57"

definition digits_value :: "string \<Rightarrow> nat" where
  "digits_value s = foldl (\<lambda>n ch. 10 * n + (of_char ch - 48)) 0 s"

definition array_index :: "string \<Rightarrow> nat option" where
  "array_index s =
     (if s \<noteq> [] \<and> list_all digit s \<and> (s = ''0'' \<or> hd s \<noteq> CHR ''0'')
         \<and> digits_value s < 4294967295
      then Some (digits_value s) else None)"

text \<open>A new own property takes its place in the enumeration order; an existing one keeps
  its place.\<close>

fun put_new :: "string \<Rightarrow> 'v \<Rightarrow> (string \<times> 'v) list \<Rightarrow> (string \<times> 'v) list" where
  "put_new k v [] = [(k, v)]"
| "put_new k v ((k', v') # rest) =
     (case array_index k of
        None \<Rightarrow> (k', v') # put_new k v rest
      | Some i \<Rightarrow>
          (case array_index k' of
             None \<Rightarrow> (k, v) # (k', v') # rest
           | Some j \<Rightarrow> if i < j then (k, v) # (k', v') # rest else (k', v') # put_new k v rest))"

definition own_put :: "string \<Rightarrow> 'v \<Rightarrow> (string \<times> 'v) list \<Rightarrow> (string \<times> 'v) list" where
  "own_put k v props =
     (if k \<in> fst ` set props then AList.update k v props else put_new k v props)"

text \<open>The names every plain object inherits a function under.\<close>

definition object_prototype_methods :: "string list" where
  "object_prototype_methods =
     [''constructor'', ''__defineGetter__'', ''__defineSetter__'', ''hasOwnProperty'',
      ''__lookupGetter__'', ''__lookupSetter__'', ''isPrototypeOf'', ''propertyIsEnumerable'',
      ''toString'', ''valueOf'', ''toLocaleString'']"

definition inherited :: "string \<Rightarrow> bool" where
  "inherited name \<longleftrightarrow> name \<in> set object_prototype_methods"

text \<open>
  The object \<^verbatim>\<open>usersData\<close> while the two loops run: its own properties, the object a user
  row named \<^verbatim>\<open>__proto__\<close> has made its prototype (if there was one), and the exception that
  has ended the loops (if one was thrown).
\<close>

record assembly =
  own_users :: server_snapshot
  proto_user :: "string list user_data option"
  halted :: "error option"

text \<open>\<^verbatim>\<open>users.forEach(user => { usersData[user.username] = {password, checkins: {}} })\<close>\<close>

definition add_user :: "assembly \<Rightarrow> user_row \<Rightarrow> assembly" where
  "add_user usersData user =
     (if fst user = ''__proto__''
      then usersData\<lparr>proto_user := Some \<lparr>password = snd user, checkins = []\<rparr>\<rparr>
      else usersData\<lparr>own_users :=
             own_put (fst user) \<lparr>password = snd user, checkins = []\<rparr> (own_users usersData)\<rparr>)"

text \<open>
  \<^verbatim>\<open>if (!checkins[date]) { checkins[date] = []; } checkins[date].push(activity)\<close> on the
  days of one user. An own date holds an array, which is truthy and takes the activity. A
  date that is not own and names something inherited is truthy as well, but what is there
  has no \<^verbatim>\<open>push\<close>: the call throws (\<open>None\<close>). Any other date is created with the empty
  array first.
\<close>

definition day_push ::
  "(string \<times> string list) list \<Rightarrow> string \<Rightarrow> string \<Rightarrow> (string \<times> string list) list option" where
  "day_push days date activity =
     (case map_of days date of
        Some acts \<Rightarrow> Some (AList.update date (acts @ [activity]) days)
      | None \<Rightarrow>
          if date = ''__proto__'' \<or> inherited date then None
          else Some (own_put date [activity] days))"

text \<open>
  The body of \<^verbatim>\<open>checkins.forEach\<close>, guarded by \<^verbatim>\<open>if (usersData[checkin.username])\<close>. After an
  exception nothing more happens. Otherwise \<^verbatim>\<open>usersData[checkin.username]\<close> is

  \<^item> the user's own entry, whose days take the activity;
  \<^item> under the name \<^verbatim>\<open>__proto__\<close> the prototype: the object of the user row of that name,
    whose days take the activity (but which is no own property, so is not in the answer),
    or else \<^verbatim>\<open>Object.prototype\<close>, which has no \<^verbatim>\<open>checkins\<close>, so that reading a date of it
    throws;
  \<^item> under an inherited method name a function, which has no \<^verbatim>\<open>checkins\<close> either;
  \<^item> under the names \<^verbatim>\<open>password\<close> and \<^verbatim>\<open>checkins\<close>, when there is a prototype user, the
    fields of that user: the password, which is skipped when it is the empty string and
    has no \<^verbatim>\<open>checkins\<close> otherwise, and the days, of which the loop then reads the
    day named \<^verbatim>\<open>checkins\<close>: there is none (and the read of a date throws) unless the
    prototype user has check-ins on a date of that name;
  \<^item> and undefined for every other name, so that the row is skipped.

  In the last case but one, when the prototype user does have a day named \<^verbatim>\<open>checkins\<close>,
  the loop goes on to read and write properties of that array of activities. What happens
  then depends on what the host's \<^verbatim>\<open>Array.prototype\<close> defines and can change it for the whole
  process; the theory does not follow the code there and marks the assembly
  \<open>OutsideModel\<close>. It takes a user row named \<^verbatim>\<open>__proto__\<close> with a check-in dated
  \<^verbatim>\<open>checkins\<close>, and a later check-in row of the username \<^verbatim>\<open>checkins\<close> without a user row.
\<close>

definition add_checkin :: "assembly \<Rightarrow> checkin_row \<Rightarrow> assembly" where
  "add_checkin usersData checkin =
     (case checkin of (username, date, activity) \<Rightarrow>
        if halted usersData \<noteq> None then usersData
        else
          (case map_of (own_users usersData) username of
             Some ud \<Rightarrow>
               (case day_push (checkins ud) date activity of
                  None \<Rightarrow> usersData\<lparr>halted := Some TypeError\<rparr>
                | Some days \<Rightarrow>
                    usersData\<lparr>own_users :=
                      AList.update username (ud\<lparr>checkins := days\<rparr>) (own_users usersData)\<rparr>)
           | None \<Rightarrow>
               if username = ''__proto__'' then
                 (case proto_user usersData of
                    None \<Rightarrow> usersData\<lparr>halted := Some TypeError\<rparr>
                  | Some p \<Rightarrow>
                      (case day_push (checkins p) date activity of
                         None \<Rightarrow> usersData\<lparr>halted := Some TypeError\<rparr>
                       | Some days \<Rightarrow> usersData\<lparr>proto_user := Some (p\<lparr>checkins := days\<rparr>)\<rparr>))
               else if inherited username then usersData\<lparr>halted := Some TypeError\<rparr>
               else
                 (case proto_user usersData of
                    None \<Rightarrow> usersData
                  | Some p \<Rightarrow>
                      if username = ''password'' then
                        (if password p = [] then usersData
                         else usersData\<lparr>halted := Some TypeError\<rparr>)
                      else if username = ''checkins'' then
                        (case map_of (checkins p) ''checkins'' of
                           None \<Rightarrow> usersData\<lparr>halted := Some TypeError\<rparr>
                         | Some acts \<Rightarrow> usersData\<lparr>halted := Some OutsideModel\<rparr>)
                      else usersData)))"

definition assemble :: "user_row list \<Rightarrow> checkin_row list \<Rightarrow> assembly" where
  "assemble users rows =
     foldl add_checkin
       (foldl add_user \<lparr>own_users = [], proto_user = None, halted = None\<rparr> users) rows"

text \<open>\<^verbatim>\<open>res.json(usersData)\<close> sends the own properties; the \<^verbatim>\<open>catch\<close> sends the error.\<close>

definition respond :: "assembly \<Rightarrow> error + server_snapshot" where
  "respond usersData =
     (case halted usersData of Some e \<Rightarrow> Inl e | None \<Rightarrow> Inr (own_users usersData))"

definition get_api_users :: "conn \<Rightarrow> (error + server_snapshot) \<times> conn" where
  "get_api_users c =
     (case sql_select_users c of
        (Inl e, c1) \<Rightarrow> (Inl e, c1)
      | (Inr users, c1) \<Rightarrow>
          (case sql_select_checkins c1 of
             (Inl e, c2) \<Rightarrow> (Inl e, c2)
           | (Inr rows, c2) \<Rightarrow> (respond (assemble users rows), c2)))"

definition get_api_export :: "conn \<Rightarrow> (error + server_snapshot) \<times> conn" where
  "get_api_export c =
     (case sql_select_users c of
        (Inl e, c1) \<Rightarrow> (Inl e, c1)
      | (Inr users, c1) \<Rightarrow>
          (case sql_select_checkins c1 of
             (Inl e, c2) \<Rightarrow> (Inl e, c2)
           | (Inr rows, c2) \<Rightarrow> (respond (assemble users rows), c2)))"

subsection \<open>\<^verbatim>\<open>POST /api/import\<close>\<close>

text \<open>The request body as \<^verbatim>\<open>Object.entries\<close> enumerates it: per username an object whose
  \<^verbatim>\<open>password\<close> and \<^verbatim>\<open>checkins\<close> may be missing, the days again as \<^verbatim>\<open>Object.entries\<close>
  enumerates them. (A parsed JSON text has all its names as own properties.)\<close>

record import_user =
  body_password :: "string option"
  body_checkins :: "(string \<times> day_value) list option"

type_synonym import_body = "(string \<times> import_user) list"

text \<open>\<^verbatim>\<open>Array.isArray(activities) ? activities : [activities]\<close>\<close>

definition activityArray :: "day_value \<Rightarrow> string list" where
  "activityArray activities = (case activities of Arr xs \<Rightarrow> xs | Str s \<Rightarrow> [s])"

text \<open>The three nested loops; the first statement that throws leaves them.\<close>

fun insert_activities :: "string \<Rightarrow> string \<Rightarrow> string list \<Rightarrow> conn \<Rightarrow> error option \<times> conn" where
  "insert_activities username date [] c = (None, c)"
| "insert_activities username date (activity # rest) c =
     (case sql_insert_checkin username date activity c of
        (Some e, c1) \<Rightarrow> (Some e, c1)
      | (None, c1) \<Rightarrow> insert_activities username date rest c1)"

fun insert_days :: "string \<Rightarrow> (string \<times> day_value) list \<Rightarrow> conn \<Rightarrow> error option \<times> conn" where
  "insert_days username [] c = (None, c)"
| "insert_days username ((date, activities) # rest) c =
     (case insert_activities username date (activityArray activities) c of
        (Some e, c1) \<Rightarrow> (Some e, c1)
      | (None, c1) \<Rightarrow> insert_days username rest c1)"

fun insert_entries :: "import_body \<Rightarrow> conn \<Rightarrow> error option \<times> conn" where
  "insert_entries [] c = (None, c)"
| "insert_entries ((username, userData) # rest) c =
     (case sql_insert_user username (body_password userData) c of
        (Some e, c1) \<Rightarrow> (Some e, c1)
      | (None, c1) \<Rightarrow>
          (case (case body_checkins userData of
                   None \<Rightarrow> (None, c1)
                 | Some days \<Rightarrow> insert_days username days c1) of
             (Some e, c2) \<Rightarrow> (Some e, c2)
           | (None, c2) \<Rightarrow> insert_entries rest c2))"

definition import_statements :: "import_body \<Rightarrow> conn \<Rightarrow> error option \<times> conn" where
  "import_statements usersData c =
     (case sql_delete_all_checkins c of
        (Some e, c1) \<Rightarrow> (Some e, c1)
      | (None, c1) \<Rightarrow>
          (case sql_delete_all_users c1 of
             (Some e, c2) \<Rightarrow> (Some e, c2)
           | (None, c2) \<Rightarrow> insert_entries usersData c2))"

text \<open>\<^verbatim>\<open>BEGIN\<close>; the statements; \<^verbatim>\<open>COMMIT\<close>, or \<^verbatim>\<open>ROLLBACK\<close> in the \<^verbatim>\<open>catch\<close>. The PostgreSQL
  branch, the SQLite branch and the SQLite-only server issue the same statements.\<close>

definition post_api_import :: "import_body \<Rightarrow> conn \<Rightarrow> response \<times> conn" where
  "post_api_import usersData c =
     (case import_statements usersData (begin_txn c) of
        (Some e, c1) \<Rightarrow> (StoreFailure e, rollback_txn c1)
      | (None, c1) \<Rightarrow> (Success, commit_txn c1))"

text \<open>The rows a snapshot asks for, in the order of the snapshot: one account row per
  entry that has a password, and one check-in row per activity of each day, a bare code
  counting as the one activity of its day.\<close>

definition body_users :: "import_body \<Rightarrow> user_row list" where
  "body_users usersData =
     concat (map (\<lambda>(username, userData).
        case body_password userData of None \<Rightarrow> [] | Some p \<Rightarrow> [(username, p)]) usersData)"

definition day_rows :: "string \<Rightarrow> string \<times> day_value \<Rightarrow> checkin_row list" where
  "day_rows username day =
     (case snd day of
        Arr activities \<Rightarrow> map (\<lambda>activity. (username, fst day, activity)) activities
      | Str code \<Rightarrow> [(username, fst day, code)])"

definition body_rows :: "import_body \<Rightarrow> checkin_row list" where
  "body_rows usersData =
     concat (map (\<lambda>(username, userData).
        case body_checkins userData of
          None \<Rightarrow> []
        | Some days \<Rightarrow> concat (map (day_rows username) days)) usersData)"

text \<open>The snapshot as JSON: what \<^verbatim>\<open>res.json\<close> sends and the client parses, and what the
  client posts back as the body of an import.\<close>

definition to_json :: "server_snapshot \<Rightarrow> snapshot" where
  "to_json usersData =
     map (\<lambda>(username, ud).
        (username, \<lparr>password = password ud,
                    checkins = map (\<lambda>(date, acts). (date, Arr acts)) (checkins ud)\<rparr>)) usersData"

definition to_body :: "snapshot \<Rightarrow> import_body" where
  "to_body usersData =
     map (\<lambda>(username, ud).
        (username, \<lparr>body_password = Some (password ud),
                    body_checkins = Some (checkins ud)\<rparr>)) usersData"

section \<open>The browser clients\<close>

text \<open>
  The repository ships two clients with the same functions. One keeps everything in the
  browser's \<^verbatim>\<open>localStorage\<close> (its functions carry the suffix \<open>_local\<close> here); the other
  talks to the server and keeps the last snapshot it fetched in the global \<^verbatim>\<open>usersData\<close>.
  The global \<^verbatim>\<open>currentUser\<close> and the value of \<^verbatim>\<open>getTodayString()\<close> are parameters.

  In the clients an object used as a dictionary is read as an association list in
  insertion order: \<^verbatim>\<open>o[k] = v\<close> is \<^const>\<open>AList.update\<close> (an existing key keeps its place, a
  new one goes last), \<^verbatim>\<open>o[k]\<close> is \<^const>\<open>map_of\<close> and \<^verbatim>\<open>delete o[k]\<close> is \<^const>\<open>AList.delete\<close>.
  There the keys are taken to be ordinary names: not the inherited property names of
  \<^verbatim>\<open>Object.prototype\<close>, and not array indices.
\<close>

record local_storage =
  users_item :: "snapshot option"
  currentUser_item :: "string option"

text \<open>\<^verbatim>\<open>JSON.parse(localStorage.getItem('users') || '{}')\<close>\<close>

definition stored_users :: "local_storage \<Rightarrow> snapshot" where
  "stored_users ls = (case users_item ls of None \<Rightarrow> [] | Some users \<Rightarrow> users)"

subsection \<open>\<^verbatim>\<open>getTodayCheckin\<close>\<close>

definition getTodayCheckin :: "snapshot \<Rightarrow> string \<Rightarrow> string \<Rightarrow> string list" where
  "getTodayCheckin usersData currentUser today =
     (case map_of usersData currentUser of
        None \<Rightarrow> []
      | Some ud \<Rightarrow>
          (case map_of (checkins ud) today of
             Some (Str s) \<Rightarrow> [s]
           | Some (Arr xs) \<Rightarrow> xs
           | None \<Rightarrow> []))"

definition getTodayCheckin_local :: "local_storage \<Rightarrow> string \<Rightarrow> string \<Rightarrow> string list" where
  "getTodayCheckin_local ls currentUser today =
     (let users = stored_users ls in
      case map_of users currentUser of
        None \<Rightarrow> []
      | Some ud \<Rightarrow>
          (case map_of (checkins ud) today of
             Some (Str s) \<Rightarrow> [s]
           | Some (Arr xs) \<Rightarrow> xs
           | None \<Rightarrow> []))"

subsection \<open>\<^verbatim>\<open>updateTodayActivity\<close>: who checked in today\<close>

text \<open>
  \<^verbatim>\<open>Array.prototype.sort\<close> with a comparison function is a stable sort: each element is
  put before the first element it compares less than. \<^verbatim>\<open>String.prototype.localeCompare\<close>
  is a function of the host and its locale, so the comparison is a parameter of the model.
\<close>

fun insert_sorted :: "('a \<Rightarrow> 'a \<Rightarrow> int) \<Rightarrow> 'a \<Rightarrow> 'a list \<Rightarrow> 'a list" where
  "insert_sorted cmp x [] = [x]"
| "insert_sorted cmp x (y # ys) =
     (if cmp x y < 0 then x # y # ys else y # insert_sorted cmp x ys)"

definition array_sort :: "('a \<Rightarrow> 'a \<Rightarrow> int) \<Rightarrow> 'a list \<Rightarrow> 'a list" where
  "array_sort cmp xs = foldl (\<lambda>sorted x. insert_sorted cmp x sorted) [] xs"

text \<open>The body of \<^verbatim>\<open>Object.entries(users).forEach\<close>: what one user contributes to
  \<^verbatim>\<open>todayCheckins\<close>. The empty string is falsy; an array never is.\<close>

definition today_entry :: "string \<Rightarrow> string \<times> day_value user_data \<Rightarrow> (string \<times> string list) list" where
  "today_entry today entry =
     (case entry of (username, userData) \<Rightarrow>
        (case map_of (checkins userData) today of
           None \<Rightarrow> []
         | Some (Str s) \<Rightarrow> if s = [] then [] else [(username, [s])]
         | Some (Arr activities) \<Rightarrow>
             if length activities > 0 then [(username, activities)] else []))"

definition updateTodayActivity ::
  "(string \<Rightarrow> string \<Rightarrow> int) \<Rightarrow> snapshot \<Rightarrow> string \<Rightarrow> (string \<times> string list) list" where
  "updateTodayActivity localeCompare usersData today =
     array_sort (\<lambda>a b. localeCompare (fst a) (fst b))
       (concat (map (today_entry today) usersData))"

definition updateTodayActivity_local ::
  "(string \<Rightarrow> string \<Rightarrow> int) \<Rightarrow> local_storage \<Rightarrow> string \<Rightarrow> (string \<times> string list) list" where
  "updateTodayActivity_local localeCompare ls today =
     (let users = stored_users ls in
      array_sort (\<lambda>a b. localeCompare (fst a) (fst b))
        (concat (map (today_entry today) users)))"

text \<open>
  The comparisons a sort may be given: \<^verbatim>\<open>Array.prototype.sort\<close> asks for a consistent
  comparison function, and a collation is one. Below, \<open>cmp a b \<le> 0\<close> reads "\<open>a\<close> is not
  after \<open>b\<close>".
\<close>

definition consistent_comparator :: "('a \<Rightarrow> 'a \<Rightarrow> int) \<Rightarrow> bool" where
  "consistent_comparator cmp \<longleftrightarrow>
     (\<forall>a b. 0 \<le> cmp a b \<longrightarrow> cmp b a \<le> 0) \<and>
     (\<forall>a b c. cmp a b \<le> 0 \<longrightarrow> cmp b c \<le> 0 \<longrightarrow> cmp a c \<le> 0)"

text \<open>
  A concrete comparison for names made of ASCII letters, as the default collation (that
  of an English locale, for one) has it: the letters are compared alphabetically without
  regard to case first, and only names equal up to case are told apart, lower case first.
\<close>

definition is_upper :: "char \<Rightarrow> bool" where
  "is_upper ch \<longleftrightarrow> 65 \<le> (of_char ch :: nat) \<and> (of_char ch :: nat) \<le> 90"

definition primary_weight :: "char \<Rightarrow> nat" where
  "primary_weight ch = (if is_upper ch then of_char ch + 32 else of_char ch)"

definition tertiary_weight :: "char \<Rightarrow> nat" where
  "tertiary_weight ch = (if is_upper ch then 1 else 0)"

definition latin_localeCompare :: "string \<Rightarrow> string \<Rightarrow> int" where
  "latin_localeCompare a b =
     (if map primary_weight a < map primary_weight b then -1
      else if map primary_weight b < map primary_weight a then 1
      else if map tertiary_weight a < map tertiary_weight b then -1
      else if map tertiary_weight b < map tertiary_weight a then 1
      else 0)"

subsection \<open>\<^verbatim>\<open>toggleCheckin\<close>\<close>

text \<open>The day's value as the function first reads it: a bare code becomes a one-element
  array, a missing day the empty array.\<close>

definition currentCheckins_of :: "day_value option \<Rightarrow> string list" where
  "currentCheckins_of v = (case v of Some (Str s) \<Rightarrow> [s] | Some (Arr xs) \<Rightarrow> xs | None \<Rightarrow> [])"

text \<open>The \<^verbatim>\<open>localStorage\<close> client: \<^verbatim>\<open>indexOf\<close> and \<^verbatim>\<open>splice(index, 1)\<close> remove the first
  occurrence; an unknown user is logged out.\<close>

definition toggleCheckin_local ::
  "string \<Rightarrow> string \<Rightarrow> string \<Rightarrow> local_storage \<Rightarrow> local_storage" where
  "toggleCheckin_local activity currentUser today ls =
     (let users = stored_users ls in
      case map_of users currentUser of
        None \<Rightarrow> ls\<lparr>currentUser_item := None\<rparr>
      | Some ud \<Rightarrow>
          (let currentCheckins = currentCheckins_of (map_of (checkins ud) today);
               toggled = (if activity \<in> set currentCheckins
                          then remove1 activity currentCheckins
                          else currentCheckins @ [activity]);
               days = (if length toggled = 0
                       then AList.delete today (checkins ud)
                       else AList.update today (Arr toggled) (checkins ud))
           in ls\<lparr>users_item := Some (AList.update currentUser (ud\<lparr>checkins := days\<rparr>) users)\<rparr>))"

text \<open>The server-backed client works on the server and on its cache. When the request is
  refused the cache is left alone; \<^verbatim>\<open>push\<close> on a cached bare code throws into the
  function's \<^verbatim>\<open>catch\<close>, which leaves the cache alone as well.\<close>

definition toggleCheckin ::
  "string \<Rightarrow> string \<Rightarrow> string \<Rightarrow> conn \<times> snapshot \<Rightarrow> conn \<times> snapshot" where
  "toggleCheckin activity currentUser today st =
     (case st of (c, usersData) \<Rightarrow>
      (case map_of usersData currentUser of
         None \<Rightarrow> (c, [])
       | Some ud \<Rightarrow>
          (let currentCheckins = currentCheckins_of (map_of (checkins ud) today);
               put = (\<lambda>days. AList.update currentUser (ud\<lparr>checkins := days\<rparr>) usersData)
           in if activity \<notin> set currentCheckins then
                (case post_api_checkin currentUser today activity c of
                   (Success, c1) \<Rightarrow>
                     (case map_of (checkins ud) today of
                        None \<Rightarrow> (c1, put (AList.update today (Arr [activity]) (checkins ud)))
                      | Some (Str s) \<Rightarrow>
                          if s = []
                          then (c1, put (AList.update today (Arr [activity]) (checkins ud)))
                          else (c1, usersData)
                      | Some (Arr xs) \<Rightarrow>
                          (c1, put (AList.update today (Arr (xs @ [activity])) (checkins ud))))
                 | (refused, c1) \<Rightarrow> (c1, usersData))
              else
                (case delete_api_checkin currentUser today activity c of
                   (Success, c1) \<Rightarrow>
                     (let rest = remove1 activity currentCheckins
                      in if length rest = 0
                         then (c1, put (AList.delete today (checkins ud)))
                         else (c1, put (AList.update today (Arr rest) (checkins ud))))
                 | (refused, c1) \<Rightarrow> (c1, usersData)))))"

subsection \<open>Export, import, delete and clear in the \<^verbatim>\<open>localStorage\<close> client\<close>

text \<open>\<^verbatim>\<open>exportData\<close> writes \<^verbatim>\<open>JSON.stringify(JSON.parse(users), null, 2)\<close> to the file;
  \<^verbatim>\<open>importData\<close> stores the parsed file (if it parsed and the user confirmed).\<close>

definition exportData_local :: "local_storage \<Rightarrow> snapshot" where
  "exportData_local ls = stored_users ls"

definition importData_local :: "snapshot option \<Rightarrow> bool \<Rightarrow> local_storage \<Rightarrow> local_storage" where
  "importData_local parsed confirmed ls =
     (case parsed of
        None \<Rightarrow> ls
      | Some importedData \<Rightarrow> if confirmed then ls\<lparr>users_item := Some importedData\<rparr> else ls)"

definition deleteUser_local ::
  "string \<Rightarrow> bool \<Rightarrow> string \<Rightarrow> local_storage \<Rightarrow> local_storage" where
  "deleteUser_local username confirmed currentUser ls =
     (if confirmed
      then (let ls1 = ls\<lparr>users_item := Some (AList.delete username (stored_users ls))\<rparr>
            in if currentUser = username then ls1\<lparr>currentUser_item := None\<rparr> else ls1)
      else ls)"

definition clearAllData_local :: "bool \<Rightarrow> bool \<Rightarrow> local_storage \<Rightarrow> local_storage" where
  "clearAllData_local confirmed confirmed_again ls =
     (if confirmed \<and> confirmed_again
      then \<lparr>users_item = None, currentUser_item = None\<rparr>
      else ls)"

text \<open>No day of any user holds the empty array.\<close>

definition no_empty_day :: "snapshot \<Rightarrow> bool" where
  "no_empty_day usersData \<longleftrightarrow>
     (\<forall>entry \<in> set usersData. \<forall>day \<in> set (checkins (snd entry)). snd day \<noteq> Arr [])"

text \<open>A store is reliable when no transient failure is scheduled.\<close>

definition reliable :: "conn \<Rightarrow> bool" where
  "reliable c \<longleftrightarrow> True \<notin> set (faults c)"

text \<open>The object the two tables of a connection assemble to, and its own properties: the
  snapshot a read answers with, unless the assembly threw.\<close>

definition assembly_of :: "conn \<Rightarrow> assembly" where
  "assembly_of c = assemble (tbl_users c) (tbl_checkins c)"

definition snapshot_of :: "conn \<Rightarrow> server_snapshot" where
  "snapshot_of c = own_users (assembly_of c)"

text \<open>
  Names that mean nothing special to a plain object, and stores in which the assembly meets
  no other: no account is named \<^verbatim>\<open>__proto__\<close>, the date of every check-in row of an account is
  an ordinary name, and so is the username of every check-in row without an account.
\<close>

definition ordinary_name :: "string \<Rightarrow> bool" where
  "ordinary_name name \<longleftrightarrow> name \<noteq> ''__proto__'' \<and> \<not> inherited name"

definition plain_store :: "conn \<Rightarrow> bool" where
  "plain_store c \<longleftrightarrow>
     ''__proto__'' \<notin> fst ` set (tbl_users c) \<and>
     (\<forall>r \<in> set (tbl_checkins c).
        if fst r \<in> fst ` set (tbl_users c) then ordinary_name (fst (snd r))
        else ordinary_name (fst r))"

text \<open>The import body with every legacy day expanded to a one-element array, as the
  specification words it.\<close>

definition canonical_day :: "day_value \<Rightarrow> day_value" where
  "canonical_day v = (case v of Str s \<Rightarrow> Arr [s] | Arr xs \<Rightarrow> Arr xs)"

definition canonical_body :: "import_body \<Rightarrow> import_body" where
  "canonical_body body =
     map (\<lambda>(username, userData).
        (username, userData\<lparr>body_checkins :=
           map_option (map (\<lambda>(date, v). (date, canonical_day v))) (body_checkins userData)\<rparr>)) body"

text \<open>
  The order in which own properties are enumerated: after an array index no smaller
  array index, after another name no array index.
\<close>

fun js_ordered :: "string list \<Rightarrow> bool" where
  "js_ordered [] = True"
| "js_ordered (k # ks) =
     (js_ordered ks \<and>
      (\<forall>k' \<in> set ks.
         case array_index k of
           None \<Rightarrow> array_index k' = None
         | Some i \<Rightarrow> (case array_index k' of None \<Rightarrow> True | Some j \<Rightarrow> i \<le> j)))"

text \<open>What a snapshot looks like when it was assembled from tables: usernames and the dates
  of a user are in enumeration order, none occurs twice, none is \<^verbatim>\<open>__proto__\<close>, no date is
  an inherited name and no day is empty. The rows a snapshot stands for, in the order an
  import inserts them.\<close>

definition well_formed_days :: "(string \<times> string list) list \<Rightarrow> bool" where
  "well_formed_days days \<longleftrightarrow>
     distinct (map fst days) \<and> js_ordered (map fst days) \<and>
     (\<forall>day \<in> set days. ordinary_name (fst day) \<and> snd day \<noteq> [])"

definition well_formed :: "server_snapshot \<Rightarrow> bool" where
  "well_formed usersData \<longleftrightarrow>
     distinct (map fst usersData) \<and> js_ordered (map fst usersData) \<and>
     ''__proto__'' \<notin> fst ` set usersData \<and>
     (\<forall>entry \<in> set usersData. well_formed_days (checkins (snd entry)))"





section \<open>Concrete stores used in the examples\<close>

definition ex_store :: conn where
  "ex_store =
     \<lparr>tbl_users = [(''alice'', ''5e88''), (''bob'', ''2bb8'')],
      tbl_checkins = [(''alice'', ''2024-03-01'', ''paper''),
                      (''bob'', ''2024-03-01'', ''quant''),
                      (''alice'', ''2024-03-01'', ''fitness'')],
      saved = None, faults = []\<rparr>"

text \<open>The same store when the second statement of the next request fails.\<close>

definition ex_store_failing :: conn where
  "ex_store_failing = ex_store\<lparr>faults := [False, True]\<rparr>"

text \<open>An import body whose second entry has no password, and one with a legacy day.\<close>

definition ex_body_incomplete :: import_body where
  "ex_body_incomplete =
     [(''carol'', \<lparr>body_password = Some ''9f86'',
                   body_checkins = Some [(''2024-03-05'', Arr [''paper'', ''quant''])]\<rparr>),
      (''dave'', \<lparr>body_password = None, body_checkins = None\<rparr>)]"

definition ex_legacy_snapshot :: snapshot where
  "ex_legacy_snapshot =
     [(''bob'', \<lparr>password = ''2bb8'', checkins = [(''2024-03-01'', Str ''fitness'')]\<rparr>)]"

definition ex_local :: local_storage where
  "ex_local = \<lparr>users_item = None, currentUser_item = None\<rparr>"


text \<open>A snapshot in which both users have checked in on the same day.\<close>

definition ex_feed_users :: snapshot where
  "ex_feed_users =
     [(''Zoe'', \<lparr>password = ''5e88'', checkins = [(''2024-03-01'', Arr [''paper''])]\<rparr>),
      (''adam'', \<lparr>password = ''2bb8'', checkins = [(''2024-03-01'', Str ''fitness'')]\<rparr>)]"

text \<open>A snapshot file with a day that holds the empty array.\<close>

definition ex_empty_day_snapshot :: snapshot where
  "ex_empty_day_snapshot =
     [(''bob'', \<lparr>password = ''2bb8'', checkins = [(''2024-03-01'', Arr [])]\<rparr>)]"


text \<open>A store whose only account is named \<^verbatim>\<open>__proto__\<close>, and a store with a check-in row whose
  username has no account row and is the name of a method every object inherits.\<close>

definition ex_store_proto :: conn where
  "ex_store_proto =
     \<lparr>tbl_users = [(''__proto__'', ''5e88'')], tbl_checkins = [], saved = None, faults = []\<rparr>"


text \<open>An import body with a day of two activities, a legacy day and a user without
  check-ins.\<close>

definition ex_body :: import_body where
  "ex_body =
     [(''carol'', \<lparr>body_password = Some ''9f86'',
                   body_checkins = Some [(''2024-03-05'', Arr [''paper'', ''quant'']),
                                         (''2024-03-06'', Str ''fitness'')]\<rparr>),
      (''dave'', \<lparr>body_password = Some ''1a2b'', body_checkins = None\<rparr>)]"
section \<open>Basic facts about the statements\<close>

lemma next_fault_eq:
  "next_fault c = (case faults c of [] \<Rightarrow> False | f # fs \<Rightarrow> f, c\<lparr>faults := tl (faults c)\<rparr>)"
  by (cases c) (simp add: next_fault_def split: list.splits)

lemma next_fault_cases:
  obtains fs where "next_fault c = (False, c\<lparr>faults := fs\<rparr>)"
  | fs where "next_fault c = (True, c\<lparr>faults := fs\<rparr>)"
  by (cases "fst (next_fault c)") (auto simp: next_fault_eq)

lemma reliable_next_fault:
  "reliable c \<Longrightarrow> \<exists>fs. next_fault c = (False, c\<lparr>faults := fs\<rparr>) \<and> True \<notin> set fs"
  by (cases "faults c") (auto simp: next_fault_eq reliable_def)

lemma reliable_update [simp]:
  "reliable (c\<lparr>tbl_users := us\<rparr>) = reliable c"
  "reliable (c\<lparr>tbl_checkins := cs\<rparr>) = reliable c"
  "reliable (c\<lparr>saved := sv\<rparr>) = reliable c"
  "reliable (c\<lparr>faults := fs\<rparr>) = (True \<notin> set fs)"
  by (simp_all add: reliable_def)

lemma find_eq_Some_mem: "(\<exists>y. find (\<lambda>r. r = x) xs = Some y) \<longleftrightarrow> x \<in> set xs"
  by (induction xs) auto

lemma find_eq_None_mem: "find (\<lambda>r. r = x) xs = None \<longleftrightarrow> x \<notin> set xs"
  by (induction xs) auto

lemma post_api_checkin_existing:
  assumes "(u, d, a) \<in> set (tbl_checkins c)" and "u \<noteq> []" and "d \<noteq> []" and "a \<noteq> []"
  shows "tbl_users (snd (post_api_checkin u d a c)) = tbl_users c
       \<and> tbl_checkins (snd (post_api_checkin u d a c)) = tbl_checkins c
       \<and> saved (snd (post_api_checkin u d a c)) = saved c
       \<and> (fst (next_fault c) = False \<longrightarrow> fst (post_api_checkin u d a c) = Conflict)"
proof (cases c rule: next_fault_cases)
  case (1 fs)
  from assms(1) obtain y where "find (\<lambda>r. r = (u, d, a)) (tbl_checkins c) = Some y"
    using find_eq_Some_mem by fastforce
  with 1 assms(2-4) show ?thesis
    by (simp add: post_api_checkin_def sql_select_checkin_def)
next
  case (2 fs)
  with assms(2-4) show ?thesis
    by (simp add: post_api_checkin_def sql_select_checkin_def)
qed

lemma post_api_checkin_Success:
  assumes "post_api_checkin u d a c = (Success, c1)"
  shows "u \<noteq> [] \<and> d \<noteq> [] \<and> a \<noteq> [] \<and> (u, d, a) \<notin> set (tbl_checkins c)
       \<and> u \<in> fst ` set (tbl_users c)
       \<and> tbl_users c1 = tbl_users c \<and> tbl_checkins c1 = tbl_checkins c @ [(u, d, a)]
       \<and> saved c1 = saved c"
proof (cases c rule: next_fault_cases)
  case (1 fs)
  show ?thesis
  proof (cases "c\<lparr>faults := fs\<rparr>" rule: next_fault_cases)
    case (1 fs')
    with \<open>next_fault c = (False, c\<lparr>faults := fs\<rparr>)\<close> assms show ?thesis
      by (auto simp: post_api_checkin_def sql_select_checkin_def sql_insert_checkin_def
          find_eq_None_mem split: if_splits option.splits)
  next
    case (2 fs')
    with \<open>next_fault c = (False, c\<lparr>faults := fs\<rparr>)\<close> assms show ?thesis
      by (auto simp: post_api_checkin_def sql_select_checkin_def sql_insert_checkin_def
          split: if_splits option.splits)
  qed
next
  case (2 fs)
  with assms show ?thesis
    by (auto simp: post_api_checkin_def sql_select_checkin_def split: if_splits)
qed

section \<open>Facts about own properties\<close>

lemma set_update_subset:
  "x \<in> set (AList.update k v al) \<Longrightarrow> x = (k, v) \<or> x \<in> set al"
  by (induction al) (auto split: if_splits)



lemma set_put_new: "set (put_new k v props) = insert (k, v) (set props)"
  by (induction props) (auto split: option.splits if_splits)

lemma map_of_put_new:
  "k \<notin> fst ` set props \<Longrightarrow> map_of (put_new k v props) = (map_of props)(k \<mapsto> v)"
  by (induction props) (auto split: option.splits if_splits simp: fun_upd_twist)

lemma distinct_put_new:
  "k \<notin> fst ` set props \<Longrightarrow> distinct (map fst props) \<Longrightarrow> distinct (map fst (put_new k v props))"
  by (induction props) (auto split: option.splits if_splits simp: set_put_new)

lemma js_ordered_put_new:
  "js_ordered (map fst props) \<Longrightarrow> js_ordered (map fst (put_new k v props))"
proof (induction props)
  case Nil
  show ?case by simp
next
  case (Cons p props)
  obtain k' v' where p: "p = (k', v')" by (cases p)
  show ?case
  proof (cases "array_index k")
    case None
    with Cons p show ?thesis
      by (auto simp: set_put_new split: option.splits)
  next
    case (Some i)
    show ?thesis
    proof (cases "array_index k'")
      case None
      with Some Cons.prems p show ?thesis by (auto split: option.splits)
    next
      case (Some j)
      with \<open>array_index k = Some i\<close> Cons p show ?thesis
        by (cases "i < j") (force simp: set_put_new split: option.splits)+
    qed
  qed
qed



lemma set_own_put_subset: "x \<in> set (own_put k v props) \<Longrightarrow> x = (k, v) \<or> x \<in> set props"
  by (auto simp: own_put_def set_put_new dest: set_update_subset split: if_splits)

lemma dom_own_put: "fst ` set (own_put k v props) = insert k (fst ` set props)"
  by (auto simp: own_put_def set_put_new dom_update)

lemma map_of_own_put: "map_of (own_put k v props) = (map_of props)(k \<mapsto> v)"
  by (simp add: own_put_def map_of_put_new update_conv')

lemma distinct_own_put:
  "distinct (map fst props) \<Longrightarrow> distinct (map fst (own_put k v props))"
  by (simp add: own_put_def distinct_put_new distinct_update)

lemma js_ordered_own_put:
  "js_ordered (map fst props) \<Longrightarrow> js_ordered (map fst (own_put k v props))"
  by (simp add: own_put_def js_ordered_put_new update_keys)


section \<open>Facts about the assembled snapshot\<close>

lemma own_users_add_user:
  "own_users (add_user st r) =
     (if fst r = ''__proto__'' then own_users st
      else own_put (fst r) \<lparr>password = snd r, checkins = []\<rparr> (own_users st))"
  by (simp add: add_user_def)

lemma halted_add_user: "halted (add_user st r) = halted st"
  by (simp add: add_user_def)

lemma halted_foldl_add_user: "halted (foldl add_user st us) = halted st"
  by (induction us arbitrary: st) (simp_all add: halted_add_user)

lemma add_checkin_halted: "halted st \<noteq> None \<Longrightarrow> add_checkin st r = st"
  by (cases r) (simp add: add_checkin_def)

lemma add_checkin_own:
  assumes "halted st = None" and "map_of (own_users st) u = Some ud"
  shows "add_checkin st (u, d, a) =
     (case day_push (checkins ud) d a of
        None \<Rightarrow> st\<lparr>halted := Some TypeError\<rparr>
      | Some days \<Rightarrow> st\<lparr>own_users := AList.update u (ud\<lparr>checkins := days\<rparr>) (own_users st)\<rparr>)"
  using assms by (simp add: add_checkin_def)

lemma add_checkin_not_own:
  assumes "map_of (own_users st) u = None"
  shows "own_users (add_checkin st (u, d, a)) = own_users st"
  using assms by (simp add: add_checkin_def split: option.splits)

lemma own_users_add_checkin:
  "own_users (add_checkin st (u, d, a)) =
     (if halted st = None then
        (case map_of (own_users st) u of
           None \<Rightarrow> own_users st
         | Some ud \<Rightarrow>
             (case day_push (checkins ud) d a of
                None \<Rightarrow> own_users st
              | Some days \<Rightarrow> AList.update u (ud\<lparr>checkins := days\<rparr>) (own_users st)))
      else own_users st)"
proof (cases "halted st = None")
  case False
  with add_checkin_halted [OF False, of "(u, d, a)"] show ?thesis by auto
next
  case True
  show ?thesis
  proof (cases "map_of (own_users st) u")
    case None
    with True show ?thesis by (simp add: add_checkin_not_own)
  next
    case (Some ud)
    with True show ?thesis by (simp add: add_checkin_own split: option.splits)
  qed
qed

lemma proto_user_add_checkin_None:
  assumes "proto_user st = None"
  shows "proto_user (add_checkin st r) = None"
proof -
  obtain u d a where r: "r = (u, d, a)" by (cases r)
  show ?thesis
  proof (cases "halted st = None")
    case False
    with assms add_checkin_halted [OF False, of r] show ?thesis by simp
  next
    case True
    show ?thesis
    proof (cases "map_of (own_users st) u")
      case None
      with True assms r show ?thesis by (simp add: add_checkin_def)
    next
      case (Some ud)
      with True assms r show ?thesis by (simp add: add_checkin_own split: option.splits)
    qed
  qed
qed

lemma well_formed_days_Nil: "well_formed_days []"
  by (simp add: well_formed_days_def)

lemma day_push_well_formed:
  assumes "day_push days d a = Some days'" and "well_formed_days days"
  shows "well_formed_days days'"
proof (cases "map_of days d")
  case None
  with assms(1) have d: "ordinary_name d" and days': "days' = own_put d [a] days"
    by (auto simp: day_push_def ordinary_name_def split: if_splits)
  have "ordinary_name (fst day) \<and> snd day \<noteq> []" if "day \<in> set days'" for day
  proof -
    from that days' have "day = (d, [a]) \<or> day \<in> set days" by (simp add: set_own_put_subset)
    with d assms(2) show ?thesis by (auto simp: well_formed_days_def)
  qed
  with assms(2) days' show ?thesis
    by (simp add: well_formed_days_def distinct_own_put js_ordered_own_put)
next
  case (Some acts)
  then have mem: "(d, acts) \<in> set days" by (rule map_of_SomeD)
  then have key: "d \<in> fst ` set days" by force
  from Some assms(1) have days': "days' = AList.update d (acts @ [a]) days"
    by (simp add: day_push_def)
  have "ordinary_name (fst day) \<and> snd day \<noteq> []" if "day \<in> set days'" for day
  proof -
    from that days' have "day = (d, acts @ [a]) \<or> day \<in> set days"
      by (simp add: set_update_subset)
    with mem assms(2) show ?thesis by (force simp: well_formed_days_def)
  qed
  with assms(2) days' key show ?thesis
    by (simp add: well_formed_days_def distinct_update update_keys)
qed

lemma day_push_dates:
  assumes "day_push days d a = Some days'"
  shows "fst ` set days' = insert d (fst ` set days)"
    and "\<exists>acts. map_of days' d = Some acts \<and> a \<in> set acts"
    and "d' \<noteq> d \<Longrightarrow> map_of days' d' = map_of days d'"
proof -
  have "days' = AList.update d (the (map_of days d) @ [a]) days \<or> days' = own_put d [a] days"
    using assms by (auto simp: day_push_def split: option.splits if_splits)
  then show "fst ` set days' = insert d (fst ` set days)"
    by (elim disjE) (simp_all add: dom_own_put dom_update)
  show "\<exists>acts. map_of days' d = Some acts \<and> a \<in> set acts"
    using assms
    by (auto simp: day_push_def map_of_own_put update_conv' split: option.splits if_splits)
  show "map_of days' d' = map_of days d'" if "d' \<noteq> d"
    using assms that
    by (auto simp: day_push_def map_of_own_put update_conv' split: option.splits if_splits)
qed

lemma well_formed_update_entry:
  assumes "well_formed users" and "u \<in> fst ` set users" and "well_formed_days (checkins ud)"
  shows "well_formed (AList.update u ud users)"
proof -
  have "well_formed_days (checkins (snd entry))" if "entry \<in> set (AList.update u ud users)"
    for entry
  proof -
    from that have "entry = (u, ud) \<or> entry \<in> set users" by (rule set_update_subset)
    with assms show ?thesis by (auto simp: well_formed_def)
  qed
  moreover have "fst ` set (AList.update u ud users) = fst ` set users"
    using assms(2) by (auto simp: dom_update)
  ultimately show ?thesis using assms(1,2)
    by (simp add: well_formed_def distinct_update update_keys)
qed

lemma well_formed_add_user:
  assumes "well_formed (own_users st)"
  shows "well_formed (own_users (add_user st r))"
proof (cases "fst r = ''__proto__''")
  case True
  with assms show ?thesis by (simp add: own_users_add_user)
next
  case False
  let ?new = "\<lparr>password = snd r, checkins = []\<rparr> :: string list user_data"
  have "well_formed_days (checkins (snd entry))"
    if "entry \<in> set (own_put (fst r) ?new (own_users st))" for entry
  proof -
    from that have "entry = (fst r, ?new) \<or> entry \<in> set (own_users st)"
      by (rule set_own_put_subset)
    with assms show ?thesis by (auto simp: well_formed_def well_formed_days_Nil)
  qed
  with assms False show ?thesis
    by (simp add: own_users_add_user well_formed_def distinct_own_put js_ordered_own_put
        dom_own_put)
qed

lemma well_formed_add_checkin:
  assumes "well_formed (own_users st)"
  shows "well_formed (own_users (add_checkin st r))"
proof -
  obtain u d a where r: "r = (u, d, a)" by (cases r)
  show ?thesis
  proof (cases "map_of (own_users st) u")
    case None
    with assms r show ?thesis by (simp add: own_users_add_checkin)
  next
    case (Some ud)
    then have mem: "(u, ud) \<in> set (own_users st)" by (rule map_of_SomeD)
    then have key: "u \<in> fst ` set (own_users st)" by force
    from mem assms have wf: "well_formed_days (checkins ud)" by (auto simp: well_formed_def)
    show ?thesis
    proof (cases "day_push (checkins ud) d a")
      case None
      with Some assms r show ?thesis by (simp add: own_users_add_checkin)
    next
      case (Some days)
      from day_push_well_formed [OF Some wf]
      have "well_formed_days (checkins (ud\<lparr>checkins := days\<rparr>))" by simp
      from well_formed_update_entry [OF assms key this] Some \<open>map_of (own_users st) u = Some ud\<close>
        assms r
      show ?thesis by (simp add: own_users_add_checkin)
    qed
  qed
qed

lemma well_formed_foldl_add_user:
  "well_formed (own_users st) \<Longrightarrow> well_formed (own_users (foldl add_user st us))"
  by (induction us arbitrary: st) (simp_all add: well_formed_add_user)

lemma well_formed_foldl_add_checkin:
  "well_formed (own_users st) \<Longrightarrow> well_formed (own_users (foldl add_checkin st rs))"
  by (induction rs arbitrary: st) (simp_all add: well_formed_add_checkin)

lemma well_formed_assemble: "well_formed (own_users (assemble us rs))"
proof -
  have "well_formed (own_users \<lparr>own_users = [], proto_user = None, halted = None\<rparr>)"
    by (simp add: well_formed_def)
  then show ?thesis
    unfolding assemble_def
    by (intro well_formed_foldl_add_checkin well_formed_foldl_add_user)
qed

lemma keys_add_user: 
  "fst ` set (own_users (foldl add_user st us))
     = fst ` set (own_users st) \<union> (fst ` set us - {''__proto__''})"
  by (induction us arbitrary: st) (auto simp: own_users_add_user dom_own_put)

lemma keys_add_checkin: "fst ` set (own_users (add_checkin st r)) = fst ` set (own_users st)"
proof -
  obtain u d a where r: "r = (u, d, a)" by (cases r)
  show ?thesis
  proof (cases "map_of (own_users st) u")
    case None
    with r show ?thesis by (simp add: own_users_add_checkin)
  next
    case (Some ud)
    then have "u \<in> fst ` set (own_users st)" by (force dest: map_of_SomeD)
    with Some r show ?thesis
      by (auto simp: own_users_add_checkin dom_update split: option.splits)
  qed
qed

lemma keys_foldl_add_checkin:
  "fst ` set (own_users (foldl add_checkin st rs)) = fst ` set (own_users st)"
  by (induction rs arbitrary: st) (simp_all add: keys_add_checkin)

lemma keys_assemble: "fst ` set (own_users (assemble us rs)) = fst ` set us - {''__proto__''}"
  by (simp add: assemble_def keys_foldl_add_checkin keys_add_user)

lemma day_push_ordinary: "ordinary_name d \<Longrightarrow> day_push days d a \<noteq> None"
  by (simp add: day_push_def ordinary_name_def split: option.splits)

lemma proto_user_foldl_add_user:
  "''__proto__'' \<notin> fst ` set us \<Longrightarrow> proto_user (foldl add_user st us) = proto_user st"
  by (induction us arbitrary: st) (auto simp: add_user_def)

lemma add_checkin_plain:
  assumes "halted st = None" and "proto_user st = None"
    and "if fst r \<in> fst ` set (own_users st) then ordinary_name (fst (snd r))
         else ordinary_name (fst r)"
  shows "halted (add_checkin st r) = None"
proof -
  obtain u d a where r: "r = (u, d, a)" by (cases r)
  show ?thesis
  proof (cases "map_of (own_users st) u")
    case None
    then have "u \<notin> fst ` set (own_users st)" by (simp add: map_of_eq_None_iff)
    with assms r None show ?thesis
      by (simp add: add_checkin_def ordinary_name_def)
  next
    case (Some ud)
    then have "u \<in> fst ` set (own_users st)" by (force dest: map_of_SomeD)
    with assms(3) r have "ordinary_name d" by simp
    from day_push_ordinary [OF this, of "checkins ud" a] obtain days
      where "day_push (checkins ud) d a = Some days" by auto
    with assms(1) Some r show ?thesis by (simp add: add_checkin_own)
  qed
qed

lemma foldl_add_checkin_plain:
  assumes "halted st = None" and "proto_user st = None"
    and "\<forall>r \<in> set rs. if fst r \<in> fst ` set (own_users st) then ordinary_name (fst (snd r))
           else ordinary_name (fst r)"
  shows "halted (foldl add_checkin st rs) = None"
  using assms
proof (induction rs arbitrary: st)
  case Nil
  then show ?case by simp
next
  case (Cons r rs)
  from Cons.prems have "halted (add_checkin st r) = None"
    by (intro add_checkin_plain) simp_all
  moreover from Cons.prems have "proto_user (add_checkin st r) = None"
    by (intro proto_user_add_checkin_None)
  moreover from Cons.prems
  have "\<forall>r' \<in> set rs. if fst r' \<in> fst ` set (own_users (add_checkin st r))
           then ordinary_name (fst (snd r')) else ordinary_name (fst r')"
    by (simp add: keys_add_checkin)
  ultimately show ?case using Cons.IH by simp
qed

lemma plain_store_answers:
  assumes "plain_store c"
  shows "halted (assembly_of c) = None"
proof -
  let ?st = "foldl add_user \<lparr>own_users = [], proto_user = None, halted = None\<rparr> (tbl_users c)"
  from assms have no_proto: "''__proto__'' \<notin> fst ` set (tbl_users c)"
    by (simp add: plain_store_def)
  then have keys: "fst ` set (own_users ?st) = fst ` set (tbl_users c)"
    by (simp add: keys_add_user)
  have "halted ?st = None" by (simp add: halted_foldl_add_user)
  moreover have "proto_user ?st = None" using no_proto by (simp add: proto_user_foldl_add_user)
  moreover from assms keys
  have "\<forall>r \<in> set (tbl_checkins c). if fst r \<in> fst ` set (own_users ?st)
           then ordinary_name (fst (snd r)) else ordinary_name (fst r)"
    by (simp add: plain_store_def)
  ultimately show ?thesis
    unfolding assembly_of_def assemble_def by (rule foldl_add_checkin_plain)
qed















section \<open>Facts about the two reads\<close>

lemma get_api_users_export: "get_api_users c = get_api_export c"
  by (simp add: get_api_users_def get_api_export_def)

lemma get_api_export_cases:
  "fst (get_api_export c) = Inl TransientStoreError
   \<or> fst (get_api_export c) = respond (assembly_of c)"
  by (auto simp: get_api_export_def assembly_of_def sql_select_users_def sql_select_checkins_def
      next_fault_eq split: list.splits bool.splits)

lemma respond_Inr:
  "respond st = Inr snap \<longleftrightarrow> halted st = None \<and> snap = own_users st"
  by (auto simp: respond_def split: option.splits)

lemma get_api_export_Inr:
  assumes "get_api_export c = (Inr snap, c')"
  shows "snap = snapshot_of c \<and> halted (assembly_of c) = None"
proof -
  from get_api_export_cases [of c] assms have "respond (assembly_of c) = Inr snap" by auto
  then show ?thesis by (simp add: respond_Inr snapshot_of_def)
qed

lemma get_api_users_Inr:
  assumes "get_api_users c = (Inr snap, c')"
  shows "snap = snapshot_of c \<and> halted (assembly_of c) = None"
  using assms get_api_export_Inr by (simp add: get_api_users_export)

lemma get_api_export_reliable:
  assumes "reliable c"
  shows "\<exists>c'. get_api_export c = (respond (assembly_of c), c') \<and> reliable c'
           \<and> tbl_users c' = tbl_users c \<and> tbl_checkins c' = tbl_checkins c"
proof -
  from reliable_next_fault [OF assms] obtain fs
    where 1: "next_fault c = (False, c\<lparr>faults := fs\<rparr>)" and "True \<notin> set fs" by blast
  then have "reliable (c\<lparr>faults := fs\<rparr>)" by simp
  from reliable_next_fault [OF this] obtain fs'
    where 2: "next_fault (c\<lparr>faults := fs\<rparr>) = (False, c\<lparr>faults := fs'\<rparr>)" and "True \<notin> set fs'"
    by auto
  then show ?thesis using 1
    by (simp add: get_api_export_def sql_select_users_def sql_select_checkins_def
        assembly_of_def)
qed

lemma get_api_users_reliable:
  assumes "reliable c"
  shows "\<exists>c'. get_api_users c = (respond (assembly_of c), c') \<and> reliable c'
           \<and> tbl_users c' = tbl_users c \<and> tbl_checkins c' = tbl_checkins c"
  using get_api_export_reliable [OF assms] by (simp add: get_api_users_export)


lemma well_formed_snapshot_of: "well_formed (snapshot_of c)"
  by (simp add: snapshot_of_def assembly_of_def well_formed_assemble)

lemma keys_snapshot_of: "fst ` set (snapshot_of c) = fst ` set (tbl_users c) - {''__proto__''}"
  by (simp add: snapshot_of_def assembly_of_def keys_assemble)

lemma plain_store_respond:
  "plain_store c \<Longrightarrow> respond (assembly_of c) = Inr (snapshot_of c)"
  by (simp add: respond_Inr plain_store_answers snapshot_of_def)


subsection \<open>The dates of an assembled user are dates of stored rows\<close>

lemma add_checkin_dates:
  assumes "map_of (own_users (add_checkin st r)) u = Some ud1"
  shows "\<exists>ud. map_of (own_users st) u = Some ud
           \<and> fst ` set (checkins ud1) \<subseteq> fst ` set (checkins ud) \<union> {d. \<exists>a. r = (u, d, a)}"
proof -
  obtain u0 d0 a0 where r: "r = (u0, d0, a0)" by (cases r)
  show ?thesis
  proof (cases "halted st = None")
    case False
    with assms add_checkin_halted [of st r] show ?thesis by auto
  next
    case live: True
    show ?thesis
    proof (cases "map_of (own_users st) u0")
      case None
      with assms r show ?thesis by (simp add: add_checkin_not_own)
    next
      case (Some ud0)
      show ?thesis
      proof (cases "day_push (checkins ud0) d0 a0")
        case None
        with live Some assms r show ?thesis by (simp add: add_checkin_own)
      next
        case (Some days)
        from day_push_dates(1) [OF Some]
        have dates: "fst ` set days = insert d0 (fst ` set (checkins ud0))" .
        from live \<open>map_of (own_users st) u0 = Some ud0\<close> Some r
        have own: "own_users (add_checkin st r)
             = AList.update u0 (ud0\<lparr>checkins := days\<rparr>) (own_users st)"
          by (simp add: add_checkin_own)
        show ?thesis
        proof (cases "u = u0")
          case True
          with assms own have "ud1 = ud0\<lparr>checkins := days\<rparr>" by (simp add: update_conv')
          with dates True r \<open>map_of (own_users st) u0 = Some ud0\<close> show ?thesis by auto
        next
          case False
          with assms own have "map_of (own_users st) u = Some ud1" by (simp add: update_conv')
          then show ?thesis by auto
        qed
      qed
    qed
  qed
qed

lemma foldl_add_checkin_dates:
  assumes "map_of (own_users (foldl add_checkin st rs)) u = Some ud'"
  shows "\<exists>ud. map_of (own_users st) u = Some ud
           \<and> fst ` set (checkins ud') \<subseteq> fst ` set (checkins ud) \<union> {d. \<exists>a. (u, d, a) \<in> set rs}"
  using assms
proof (induction rs arbitrary: st)
  case Nil
  then show ?case by simp
next
  case (Cons r rs)
  from Cons.IH [of "add_checkin st r"] Cons.prems obtain ud1
    where 1: "map_of (own_users (add_checkin st r)) u = Some ud1"
      and 2: "fst ` set (checkins ud') \<subseteq> fst ` set (checkins ud1) \<union> {d. \<exists>a. (u, d, a) \<in> set rs}"
    by auto
  from add_checkin_dates [OF 1] obtain ud
    where "map_of (own_users st) u = Some ud"
      and 3: "fst ` set (checkins ud1) \<subseteq> fst ` set (checkins ud) \<union> {d. \<exists>a. r = (u, d, a)}"
    by blast
  have "{d. \<exists>a. r = (u, d, a)} \<union> {d. \<exists>a. (u, d, a) \<in> set rs}
      \<subseteq> {d. \<exists>a. (u, d, a) \<in> set (r # rs)}" by auto
  with 2 3 have "fst ` set (checkins ud')
      \<subseteq> fst ` set (checkins ud) \<union> {d. \<exists>a. (u, d, a) \<in> set (r # rs)}" by blast
  with \<open>map_of (own_users st) u = Some ud\<close> show ?case by blast
qed

lemma foldl_add_user_empty:
  assumes "\<forall>entry \<in> set (own_users st). checkins (snd entry) = []"
  shows "\<forall>entry \<in> set (own_users (foldl add_user st us)). checkins (snd entry) = []"
  using assms
proof (induction us arbitrary: st)
  case Nil
  then show ?case by simp
next
  case (Cons r us)
  have "\<forall>entry \<in> set (own_users (add_user st r)). checkins (snd entry) = []"
  proof
    fix entry assume "entry \<in> set (own_users (add_user st r))"
    then have "entry = (fst r, \<lparr>password = snd r, checkins = []\<rparr>) \<or> entry \<in> set (own_users st)"
      by (auto simp: own_users_add_user split: if_splits dest: set_own_put_subset)
    with Cons.prems show "checkins (snd entry) = []" by auto
  qed
  from Cons.IH [OF this] show ?case by simp
qed

lemma assemble_dates:
  assumes "map_of (own_users (assemble us rs)) u = Some ud"
  shows "fst ` set (checkins ud) \<subseteq> {d. \<exists>a. (u, d, a) \<in> set rs}"
proof -
  let ?st = "foldl add_user \<lparr>own_users = [], proto_user = None, halted = None\<rparr> us"
  from foldl_add_checkin_dates [OF assms [unfolded assemble_def]] obtain ud0
    where 0: "map_of (own_users ?st) u = Some ud0"
      and 1: "fst ` set (checkins ud) \<subseteq> fst ` set (checkins ud0) \<union> {d. \<exists>a. (u, d, a) \<in> set rs}"
    by blast
  from 0 have "(u, ud0) \<in> set (own_users ?st)" by (rule map_of_SomeD)
  with foldl_add_user_empty [of "\<lparr>own_users = [], proto_user = None, halted = None\<rparr>" us]
  have "checkins ud0 = []" by fastforce
  with 1 show ?thesis by simp
qed

subsection \<open>A check-in that was added is in the snapshot a read answers with\<close>

lemma halted_foldl_add_checkin:
  "halted st \<noteq> None \<Longrightarrow> foldl add_checkin st rs = st"
  by (induction rs) (simp_all add: add_checkin_halted)

lemma add_checkin_visible:
  assumes "halted (add_checkin st (u, d, a)) = None" and "u \<in> fst ` set (own_users st)"
  shows "\<exists>ud acts. map_of (own_users (add_checkin st (u, d, a))) u = Some ud
           \<and> map_of (checkins ud) d = Some acts \<and> a \<in> set acts"
proof -
  from assms(1) have live: "halted st = None"
    using add_checkin_halted [of st "(u, d, a)"] by (cases "halted st") auto
  from assms(2) obtain ud where ud: "map_of (own_users st) u = Some ud"
    by (metis map_of_eq_None_iff not_Some_eq)
  show ?thesis
  proof (cases "day_push (checkins ud) d a")
    case None
    with live ud assms(1) show ?thesis by (simp add: add_checkin_own)
  next
    case (Some days)
    from day_push_dates(2) [OF Some] live ud Some show ?thesis
      by (simp add: add_checkin_own update_conv')
  qed
qed
section \<open>Facts about the import loops\<close>

lemma sql_insert_checkin_saved: "saved (snd (sql_insert_checkin u d a c)) = saved c"
  by (simp add: sql_insert_checkin_def next_fault_eq split: list.splits bool.splits)

lemma sql_insert_user_saved: "saved (snd (sql_insert_user u p c)) = saved c"
  by (simp add: sql_insert_user_def next_fault_eq split: list.splits bool.splits option.splits)

lemma sql_insert_checkin_None:
  assumes "sql_insert_checkin u d a c = (None, c1)"
  shows "tbl_users c1 = tbl_users c \<and> tbl_checkins c1 = tbl_checkins c @ [(u, d, a)]"
  using assms
  by (auto simp: sql_insert_checkin_def next_fault_eq split: list.splits bool.splits if_splits)

lemma sql_insert_user_None:
  assumes "sql_insert_user u p c = (None, c1)"
  shows "\<exists>pw. p = Some pw \<and> tbl_users c1 = tbl_users c @ [(u, pw)]
           \<and> tbl_checkins c1 = tbl_checkins c"
  using assms
  by (auto simp: sql_insert_user_def next_fault_eq
      split: list.splits bool.splits if_splits option.splits)

lemma insert_activities_saved: "saved (snd (insert_activities u d acts c)) = saved c"
proof (induction acts arbitrary: c)
  case Nil
  show ?case by simp
next
  case (Cons a acts)
  show ?case
  proof (cases "sql_insert_checkin u d a c")
    case (Pair e c1)
    with sql_insert_checkin_saved [of u d a c] have "saved c1 = saved c" by simp
    with Pair Cons.IH [of c1] show ?thesis by (cases e) simp_all
  qed
qed

lemma insert_activities_None:
  assumes "insert_activities u d acts c = (None, c')"
  shows "tbl_users c' = tbl_users c
       \<and> tbl_checkins c' = tbl_checkins c @ map (\<lambda>a. (u, d, a)) acts"
  using assms
proof (induction acts arbitrary: c)
  case Nil
  then show ?case by simp
next
  case (Cons a acts)
  show ?case
  proof (cases "sql_insert_checkin u d a c")
    case (Pair e c1)
    with Cons.prems have e: "e = None" and rest: "insert_activities u d acts c1 = (None, c')"
      by (auto split: option.splits)
    from sql_insert_checkin_None [OF Pair [unfolded e]] Cons.IH [OF rest]
    show ?thesis by simp
  qed
qed

lemma day_rows_activityArray:
  "day_rows u (d, v) = map (\<lambda>activity. (u, d, activity)) (activityArray v)"
  by (cases v) (simp_all add: day_rows_def activityArray_def)

lemma insert_days_saved: "saved (snd (insert_days u days c)) = saved c"
proof (induction days arbitrary: c)
  case Nil
  show ?case by simp
next
  case (Cons day days)
  obtain d v where day: "day = (d, v)" by (cases day)
  show ?case
  proof (cases "insert_activities u d (activityArray v) c")
    case (Pair e c1)
    with insert_activities_saved [of u d "activityArray v" c] have "saved c1 = saved c" by simp
    with Pair day Cons.IH [of c1] show ?thesis by (cases e) simp_all
  qed
qed

lemma insert_days_None:
  assumes "insert_days u days c = (None, c')"
  shows "tbl_users c' = tbl_users c
       \<and> tbl_checkins c' = tbl_checkins c @ concat (map (day_rows u) days)"
  using assms
proof (induction days arbitrary: c)
  case Nil
  then show ?case by simp
next
  case (Cons day days)
  obtain d v where day: "day = (d, v)" by (cases day)
  show ?case
  proof (cases "insert_activities u d (activityArray v) c")
    case (Pair e c1)
    with Cons.prems day have e: "e = None" and rest: "insert_days u days c1 = (None, c')"
      by (auto split: option.splits)
    from insert_activities_None [OF Pair [unfolded e]] Cons.IH [OF rest] day
    show ?thesis by (simp add: day_rows_activityArray)
  qed
qed

lemma insert_entries_saved: "saved (snd (insert_entries body c)) = saved c"
proof (induction body arbitrary: c)
  case Nil
  show ?case by simp
next
  case (Cons entry body)
  obtain u ud where entry: "entry = (u, ud)" by (cases entry)
  show ?case
  proof (cases "sql_insert_user u (body_password ud) c")
    case (Pair e c1)
    with sql_insert_user_saved [of u "body_password ud" c] have 1: "saved c1 = saved c" by simp
    show ?thesis
    proof (cases e)
      case (Some err)
      with Pair entry 1 show ?thesis by simp
    next
      case None
      show ?thesis
      proof (cases "body_checkins ud")
        case no_days: None
        with Pair None entry 1 Cons.IH [of c1] show ?thesis by simp
      next
        case (Some days)
        show ?thesis
        proof (cases "insert_days u days c1")
          case inner: (Pair e2 c2)
          with insert_days_saved [of u days c1] 1 have "saved c2 = saved c" by simp
          with Pair None entry Some inner Cons.IH [of c2] show ?thesis by (cases e2) simp_all
        qed
      qed
    qed
  qed
qed

lemma insert_entries_None:
  assumes "insert_entries body c = (None, c')"
  shows "tbl_users c' = tbl_users c @ body_users body
       \<and> tbl_checkins c' = tbl_checkins c @ body_rows body"
  using assms
proof (induction body arbitrary: c)
  case Nil
  then show ?case by (simp add: body_users_def body_rows_def)
next
  case (Cons entry body)
  obtain u ud where entry: "entry = (u, ud)" by (cases entry)
  obtain e c1 where first: "sql_insert_user u (body_password ud) c = (e, c1)" by fastforce
  with Cons.prems entry have e: "e = None" by (auto split: option.splits)
  from sql_insert_user_None [OF first [unfolded e]] obtain pw
    where pw: "body_password ud = Some pw" and us1: "tbl_users c1 = tbl_users c @ [(u, pw)]"
      and cs1: "tbl_checkins c1 = tbl_checkins c" by blast
  show ?case
  proof (cases "body_checkins ud")
    case None
    with Cons.prems entry first e have "insert_entries body c1 = (None, c')" by simp
    from Cons.IH [OF this] us1 cs1 pw None entry show ?thesis
      by (simp add: body_users_def body_rows_def)
  next
    case (Some days)
    obtain e2 c2 where inner: "insert_days u days c1 = (e2, c2)" by fastforce
    with Cons.prems entry first e Some have e2: "e2 = None"
      and rest: "insert_entries body c2 = (None, c')" by (auto split: option.splits)
    from insert_days_None [OF inner [unfolded e2]] Cons.IH [OF rest] us1 cs1 pw Some entry
    show ?thesis by (simp add: body_users_def body_rows_def)
  qed
qed

lemma import_statements_saved: "saved (snd (import_statements body c)) = saved c"
  by (auto simp: insert_entries_saved import_statements_def sql_delete_all_checkins_def sql_delete_all_users_def
      next_fault_eq split: list.splits bool.splits option.splits prod.splits)

lemma import_statements_None:
  assumes "import_statements body c = (None, c')"
  shows "tbl_users c' = body_users body \<and> tbl_checkins c' = body_rows body"
  using assms
  by (auto simp: import_statements_def sql_delete_all_checkins_def sql_delete_all_users_def
      next_fault_eq split: list.splits bool.splits option.splits prod.splits
      dest!: insert_entries_None)

lemma insert_entries_None_passwords:
  assumes "insert_entries body c = (None, c')"
  shows "map fst (body_users body) = map fst body"
  using assms
proof (induction body arbitrary: c)
  case Nil
  then show ?case by (simp add: body_users_def)
next
  case (Cons entry body)
  obtain u ud where entry: "entry = (u, ud)" by (cases entry)
  obtain e c1 where first: "sql_insert_user u (body_password ud) c = (e, c1)" by fastforce
  with Cons.prems entry have e: "e = None" by (auto split: option.splits)
  from sql_insert_user_None [OF first [unfolded e]] obtain pw
    where pw: "body_password ud = Some pw" by blast
  from Cons.prems entry first e obtain c2 where "insert_entries body c2 = (None, c')"
    by (auto split: option.splits prod.splits)
  from Cons.IH [OF this] pw entry show ?case by (simp add: body_users_def)
qed

lemma reliable_tl: "reliable c \<Longrightarrow> True \<notin> set (tl (faults c))"
  by (cases "faults c") (simp_all add: reliable_def)

lemma reliable_next_fault_tl:
  "reliable c \<Longrightarrow> next_fault c = (False, c\<lparr>faults := tl (faults c)\<rparr>)"
  by (cases "faults c") (auto simp: next_fault_eq reliable_def)

lemma sql_insert_checkin_reliable:
  assumes "reliable c" and "u \<in> fst ` set (tbl_users c)"
  shows "\<exists>c1. sql_insert_checkin u d a c = (None, c1) \<and> reliable c1"
  using assms(2) reliable_tl [OF assms(1)]
  by (simp add: sql_insert_checkin_def reliable_next_fault_tl [OF assms(1)])

lemma sql_insert_user_reliable:
  assumes "reliable c" and "u \<notin> fst ` set (tbl_users c)"
  shows "\<exists>c1. sql_insert_user u (Some pw) c = (None, c1) \<and> reliable c1"
  using assms(2) reliable_tl [OF assms(1)]
  by (simp add: sql_insert_user_def reliable_next_fault_tl [OF assms(1)])

lemma sql_delete_all_checkins_reliable:
  assumes "reliable c"
  shows "\<exists>c1. sql_delete_all_checkins c = (None, c1) \<and> reliable c1
           \<and> tbl_users c1 = tbl_users c \<and> tbl_checkins c1 = [] \<and> saved c1 = saved c"
  using reliable_tl [OF assms]
  by (simp add: sql_delete_all_checkins_def reliable_next_fault_tl [OF assms])

lemma sql_delete_all_users_reliable:
  assumes "reliable c"
  shows "\<exists>c1. sql_delete_all_users c = (None, c1) \<and> reliable c1
           \<and> tbl_users c1 = [] \<and> tbl_checkins c1 = [] \<and> saved c1 = saved c"
  using reliable_tl [OF assms]
  by (simp add: sql_delete_all_users_def reliable_next_fault_tl [OF assms])

lemma insert_activities_reliable:
  assumes "reliable c" and "u \<in> fst ` set (tbl_users c)"
  shows "\<exists>c'. insert_activities u d acts c = (None, c') \<and> reliable c'"
  using assms
proof (induction acts arbitrary: c)
  case Nil
  then show ?case by simp
next
  case (Cons a acts)
  from sql_insert_checkin_reliable [OF Cons.prems, of d a] obtain c1
    where 1: "sql_insert_checkin u d a c = (None, c1)" and "reliable c1" by blast
  moreover from sql_insert_checkin_None [OF 1] Cons.prems(2)
  have "u \<in> fst ` set (tbl_users c1)" by simp
  ultimately show ?case using Cons.IH [of c1] by simp
qed

lemma insert_days_reliable:
  assumes "reliable c" and "u \<in> fst ` set (tbl_users c)"
  shows "\<exists>c'. insert_days u days c = (None, c') \<and> reliable c'"
  using assms
proof (induction days arbitrary: c)
  case Nil
  then show ?case by simp
next
  case (Cons day days)
  obtain d v where day: "day = (d, v)" by (cases day)
  from insert_activities_reliable [OF Cons.prems, of d "activityArray v"] obtain c1
    where 1: "insert_activities u d (activityArray v) c = (None, c1)" and "reliable c1"
    by blast
  moreover from insert_activities_None [OF 1] Cons.prems(2)
  have "u \<in> fst ` set (tbl_users c1)" by simp
  ultimately show ?case using Cons.IH [of c1] day by simp
qed

lemma insert_entries_reliable:
  assumes "reliable c" and "distinct (map fst body)"
    and "fst ` set body \<inter> fst ` set (tbl_users c) = {}"
    and "\<forall>entry \<in> set body. body_password (snd entry) \<noteq> None"
  shows "\<exists>c'. insert_entries body c = (None, c') \<and> reliable c'"
  using assms
proof (induction body arbitrary: c)
  case Nil
  then show ?case by simp
next
  case (Cons entry body)
  obtain u ud where entry: "entry = (u, ud)" by (cases entry)
  from Cons.prems(4) entry obtain pw where pw: "body_password ud = Some pw" by auto
  from Cons.prems(3) entry have "u \<notin> fst ` set (tbl_users c)" by auto
  from sql_insert_user_reliable [OF Cons.prems(1) this, of pw] obtain c1
    where 1: "sql_insert_user u (Some pw) c = (None, c1)" and r1: "reliable c1" by blast
  from sql_insert_user_None [OF 1]
  have us1: "tbl_users c1 = tbl_users c @ [(u, pw)]" by simp
  then have u1: "u \<in> fst ` set (tbl_users c1)" by simp
  have "\<exists>c2. (case body_checkins ud of None \<Rightarrow> (None, c1)
                | Some days \<Rightarrow> insert_days u days c1) = (None, c2)
             \<and> reliable c2 \<and> tbl_users c2 = tbl_users c1"
  proof (cases "body_checkins ud")
    case None
    with r1 show ?thesis by simp
  next
    case (Some days)
    from insert_days_reliable [OF r1 u1, of days] obtain c2
      where 2: "insert_days u days c1 = (None, c2)" and "reliable c2" by blast
    with insert_days_None [OF 2] Some show ?thesis by simp
  qed
  then obtain c2 where 2: "(case body_checkins ud of None \<Rightarrow> (None, c1)
                | Some days \<Rightarrow> insert_days u days c1) = (None, c2)"
    and r2: "reliable c2" and us2: "tbl_users c2 = tbl_users c1" by blast
  from Cons.prems(2,3) entry us1 us2
  have "distinct (map fst body)" and "fst ` set body \<inter> fst ` set (tbl_users c2) = {}"
    by auto
  from Cons.IH [OF r2 this] Cons.prems(4) obtain c'
    where "insert_entries body c2 = (None, c')" and "reliable c'" by auto
  with 1 2 pw entry show ?case by simp
qed

lemma post_api_import_outcomes:
  assumes "post_api_import body c = (r, c')"
  shows "saved c' = None \<and>
    ((r = Success \<and> tbl_users c' = body_users body \<and> tbl_checkins c' = body_rows body)
     \<or> ((\<exists>e. r = StoreFailure e) \<and> tbl_users c' = tbl_users c
         \<and> tbl_checkins c' = tbl_checkins c))"
proof (cases "import_statements body (begin_txn c)")
  case (Pair e c1)
  from import_statements_saved [of body "begin_txn c"] Pair
  have sv: "saved c1 = Some (tbl_users c, tbl_checkins c)" by (simp add: begin_txn_def)
  show ?thesis
  proof (cases e)
    case None
    with Pair assms import_statements_None [of body "begin_txn c" c1] show ?thesis
      by (auto simp: post_api_import_def commit_txn_def)
  next
    case (Some err)
    with Pair assms sv show ?thesis
      by (auto simp: post_api_import_def rollback_txn_def)
  qed
qed

lemma post_api_import_reliable:
  assumes "reliable c" and "distinct (map fst body)"
    and "\<forall>entry \<in> set body. body_password (snd entry) \<noteq> None"
  shows "\<exists>c'. post_api_import body c = (Success, c') \<and> reliable c'"
proof -
  have "reliable (begin_txn c)" using assms(1) by (simp add: begin_txn_def)
  from sql_delete_all_checkins_reliable [OF this] obtain c1
    where 1: "sql_delete_all_checkins (begin_txn c) = (None, c1)" and "reliable c1" by blast
  from sql_delete_all_users_reliable [OF this(2)] obtain c2
    where 2: "sql_delete_all_users c1 = (None, c2)" and r2: "reliable c2"
      and "tbl_users c2 = []" by blast
  then have "fst ` set body \<inter> fst ` set (tbl_users c2) = {}" by simp
  from insert_entries_reliable [OF r2 assms(2) this assms(3)] obtain c3
    where "insert_entries body c2 = (None, c3)" and "reliable c3" by blast
  with 1 2 show ?thesis
    by (simp add: post_api_import_def import_statements_def commit_txn_def)
qed

lemma import_statements_None_passwords:
  assumes "import_statements body c = (None, c')"
  shows "map fst (body_users body) = map fst body"
  using assms
  by (auto simp: import_statements_def split: option.splits prod.splits
      dest: insert_entries_None_passwords)

lemma ex_import_fails:
  "fst (post_api_import ex_body_incomplete ex_store) = StoreFailure NotNullViolation"
  by (simp add: post_api_import_def import_statements_def ex_body_incomplete_def ex_store_def
      begin_txn_def sql_delete_all_checkins_def sql_delete_all_users_def sql_insert_user_def
      sql_insert_checkin_def activityArray_def next_fault_def)

lemma activityArray_canonical: "activityArray (canonical_day v) = activityArray v"
  by (cases v) (simp_all add: activityArray_def canonical_day_def)

lemma insert_days_canonical:
  "insert_days u (map (\<lambda>(date, v). (date, canonical_day v)) days) c = insert_days u days c"
  by (induction days arbitrary: c)
    (auto simp: activityArray_canonical split: prod.splits option.splits)

lemma canonical_body_Cons:
  "canonical_body ((u, ud) # body) =
     (u, ud\<lparr>body_checkins :=
           map_option (map (\<lambda>(date, v). (date, canonical_day v))) (body_checkins ud)\<rparr>)
     # canonical_body body"
  by (simp add: canonical_body_def)

lemma insert_entries_canonical: "insert_entries (canonical_body body) c = insert_entries body c"
proof (induction body arbitrary: c)
  case Nil
  show ?case by (simp add: canonical_body_def)
next
  case (Cons entry body)
  obtain u ud where entry: "entry = (u, ud)" by (cases entry)
  show ?case unfolding entry canonical_body_Cons
    by (cases "body_checkins ud")
      (simp_all add: Cons.IH insert_days_canonical split: prod.splits option.splits)
qed

lemma import_statements_canonical:
  "import_statements (canonical_body body) c = import_statements body c"
  by (simp add: import_statements_def insert_entries_canonical split: prod.splits option.splits)

lemma post_api_import_canonical:
  "post_api_import (canonical_body body) c = post_api_import body c"
  by (simp add: post_api_import_def import_statements_canonical)

lemma legacy_row_in_body_rows:
  assumes "(u, ud) \<in> set body" and "body_checkins ud = Some days" and "(d, Str s) \<in> set days"
  shows "(u, d, s) \<in> set (body_rows body)"
proof -
  have "(u, d, s) \<in> set (day_rows u (d, Str s))"
    by (simp add: day_rows_def)
  with assms(3) have "(u, d, s) \<in> set (concat (map (day_rows u) days))" by auto
  with assms(1,2) show ?thesis by (force simp: body_rows_def)
qed

lemma to_json_only_arrays:
  assumes "(u, ud) \<in> set (to_json snap)" and "(d, v) \<in> set (checkins ud)"
  shows "\<exists>acts. v = Arr acts"
  using assms by (auto simp: to_json_def)

section \<open>Facts about the exchanged snapshot\<close>









section \<open>Facts about the clients\<close>

lemma set_insert_sorted: "set (insert_sorted cmp x xs) = insert x (set xs)"
  by (induction xs) auto

lemma length_insert_sorted: "length (insert_sorted cmp x xs) = Suc (length xs)"
  by (induction xs) auto

lemma set_foldl_insert_sorted:
  "set (foldl (\<lambda>sorted x. insert_sorted cmp x sorted) acc xs) = set acc \<union> set xs"
  by (induction xs arbitrary: acc) (auto simp: set_insert_sorted)

lemma set_array_sort: "set (array_sort cmp xs) = set xs"
  by (simp add: array_sort_def set_foldl_insert_sorted)

lemma length_foldl_insert_sorted:
  "length (foldl (\<lambda>sorted x. insert_sorted cmp x sorted) acc xs) = length acc + length xs"
  by (induction xs arbitrary: acc) (auto simp: length_insert_sorted)

lemma length_array_sort: "length (array_sort cmp xs) = length xs"
  by (simp add: array_sort_def length_foldl_insert_sorted)

lemma sorted_insert_sorted:
  assumes "consistent_comparator cmp" and "sorted_wrt (\<lambda>a b. cmp a b \<le> 0) xs"
  shows "sorted_wrt (\<lambda>a b. cmp a b \<le> 0) (insert_sorted cmp x xs)"
  using assms(2)
proof (induction xs)
  case Nil
  show ?case by simp
next
  case (Cons y ys)
  from assms(1) have flip: "\<And>a b. 0 \<le> cmp a b \<Longrightarrow> cmp b a \<le> 0"
    and trans: "\<And>a b c. cmp a b \<le> 0 \<Longrightarrow> cmp b c \<le> 0 \<Longrightarrow> cmp a c \<le> 0"
    unfolding consistent_comparator_def by blast+
  show ?case
  proof (cases "cmp x y < 0")
    case True
    then have xy: "cmp x y \<le> 0" by simp
    from Cons.prems have "\<forall>z \<in> set ys. cmp y z \<le> 0" by simp
    with xy trans have "\<forall>z \<in> set ys. cmp x z \<le> 0" by blast
    with True xy Cons.prems show ?thesis by simp
  next
    case False
    then have "cmp y x \<le> 0" using flip by simp
    with False Cons show ?thesis by (simp add: set_insert_sorted)
  qed
qed

lemma sorted_foldl_insert_sorted:
  assumes "consistent_comparator cmp" and "sorted_wrt (\<lambda>a b. cmp a b \<le> 0) acc"
  shows "sorted_wrt (\<lambda>a b. cmp a b \<le> 0) (foldl (\<lambda>sorted x. insert_sorted cmp x sorted) acc xs)"
  using assms(2)
  by (induction xs arbitrary: acc) (simp_all add: sorted_insert_sorted [OF assms(1)])

lemma sorted_array_sort:
  assumes "consistent_comparator cmp"
  shows "sorted_wrt (\<lambda>a b. cmp a b \<le> 0) (array_sort cmp xs)"
  by (simp add: array_sort_def sorted_foldl_insert_sorted [OF assms])

lemma consistent_comparator_fst:
  assumes "consistent_comparator cmp"
  shows "consistent_comparator (\<lambda>a b. cmp (fst a) (fst b))"
  using assms unfolding consistent_comparator_def by blast

lemma today_entry_iff:
  "(u, acts) \<in> set (today_entry today (u', ud)) \<longleftrightarrow>
     u = u' \<and> ((map_of (checkins ud) today = Some (Arr acts) \<and> acts \<noteq> [])
             \<or> (\<exists>s. map_of (checkins ud) today = Some (Str s) \<and> s \<noteq> [] \<and> acts = [s]))"
proof (cases "map_of (checkins ud) today")
  case None
  then show ?thesis by (simp add: today_entry_def)
next
  case (Some v)
  then show ?thesis by (cases v) (auto simp: today_entry_def)
qed

lemma collected_iff:
  "(u, acts) \<in> set (concat (map (today_entry today) usersData)) \<longleftrightarrow>
     (\<exists>ud. (u, ud) \<in> set usersData \<and>
        ((map_of (checkins ud) today = Some (Arr acts) \<and> acts \<noteq> [])
         \<or> (\<exists>s. map_of (checkins ud) today = Some (Str s) \<and> s \<noteq> [] \<and> acts = [s])))"
proof -
  have "(u, acts) \<in> set (concat (map (today_entry today) usersData)) \<longleftrightarrow>
      (\<exists>entry \<in> set usersData. (u, acts) \<in> set (today_entry today entry))" by auto
  also have "\<dots> \<longleftrightarrow> (\<exists>u' ud. (u', ud) \<in> set usersData
      \<and> (u, acts) \<in> set (today_entry today (u', ud)))" by auto
  finally show ?thesis by (auto simp: today_entry_iff)
qed

lemma latin_localeCompare_le:
  "latin_localeCompare a b \<le> 0 \<longleftrightarrow>
     map primary_weight a < map primary_weight b
     \<or> (map primary_weight a = map primary_weight b
        \<and> map tertiary_weight a \<le> map tertiary_weight b)"
  by (auto simp: latin_localeCompare_def)

lemma latin_localeCompare_ge:
  "0 \<le> latin_localeCompare a b \<longleftrightarrow>
     map primary_weight b < map primary_weight a
     \<or> (map primary_weight a = map primary_weight b
        \<and> map tertiary_weight b \<le> map tertiary_weight a)"
  by (auto simp: latin_localeCompare_def)

lemma consistent_latin_localeCompare: "consistent_comparator latin_localeCompare"
  unfolding consistent_comparator_def latin_localeCompare_le latin_localeCompare_ge
  by (intro conjI allI impI) (auto dest: less_trans)

lemma no_empty_day_update:
  assumes "no_empty_day usersData" and "\<forall>day \<in> set (checkins ud). snd day \<noteq> Arr []"
  shows "no_empty_day (AList.update u ud usersData)"
  unfolding no_empty_day_def
proof (intro ballI)
  fix entry day
  assume "entry \<in> set (AList.update u ud usersData)" and day: "day \<in> set (checkins (snd entry))"
  then have "entry = (u, ud) \<or> entry \<in> set usersData" using set_update_subset by fast
  with assms day show "snd day \<noteq> Arr []" by (auto simp: no_empty_day_def)
qed

lemma no_empty_day_update_day:
  assumes "no_empty_day usersData" and "(u, ud) \<in> set usersData" and "acts \<noteq> []"
  shows "no_empty_day
     (AList.update u (ud\<lparr>checkins := AList.update d (Arr acts) (checkins ud)\<rparr>) usersData)"
proof (rule no_empty_day_update [OF assms(1)], rule ballI)
  fix day assume "day \<in> set (checkins (ud\<lparr>checkins := AList.update d (Arr acts) (checkins ud)\<rparr>))"
  then have "day = (d, Arr acts) \<or> day \<in> set (checkins ud)"
    using set_update_subset by fastforce
  with assms show "snd day \<noteq> Arr []" by (auto simp: no_empty_day_def)
qed

lemma no_empty_day_delete_day:
  assumes "no_empty_day usersData" and "(u, ud) \<in> set usersData"
  shows "no_empty_day
     (AList.update u (ud\<lparr>checkins := AList.delete d (checkins ud)\<rparr>) usersData)"
proof (rule no_empty_day_update [OF assms(1)], rule ballI)
  fix day assume "day \<in> set (checkins (ud\<lparr>checkins := AList.delete d (checkins ud)\<rparr>))"
  then have "day \<in> set (checkins ud)" by (auto simp: AList.delete_eq)
  with assms show "snd day \<noteq> Arr []" by (auto simp: no_empty_day_def)
qed

lemma no_empty_day_delete_user:
  "no_empty_day usersData \<Longrightarrow> no_empty_day (AList.delete u usersData)"
  by (fastforce simp: no_empty_day_def AList.delete_eq)

lemma no_empty_day_Nil: "no_empty_day []"
  by (simp add: no_empty_day_def)

lemma toggleCheckin_local_no_empty_day:
  assumes "no_empty_day (stored_users ls)"
  shows "no_empty_day (stored_users (toggleCheckin_local a u d ls))"
proof (cases "map_of (stored_users ls) u")
  case None
  with assms show ?thesis by (simp add: toggleCheckin_local_def stored_users_def)
next
  case (Some ud)
  then have mem: "(u, ud) \<in> set (stored_users ls)" by (rule map_of_SomeD)
  let ?cur = "currentCheckins_of (map_of (checkins ud) d)"
  let ?toggled = "if a \<in> set ?cur then remove1 a ?cur else ?cur @ [a]"
  show ?thesis
  proof (cases "?toggled = []")
    case True
    with Some no_empty_day_delete_day [OF assms mem, of d] show ?thesis
      by (simp add: toggleCheckin_local_def Let_def stored_users_def)
  next
    case False
    with Some no_empty_day_update_day [OF assms mem False, of d] show ?thesis
      by (simp add: toggleCheckin_local_def Let_def stored_users_def)
  qed
qed

lemma toggleCheckin_local_removes_sole:
  assumes "map_of (stored_users ls) u = Some ud"
    and "currentCheckins_of (map_of (checkins ud) d) = [a]"
  shows "\<exists>ud'. map_of (stored_users (toggleCheckin_local a u d ls)) u = Some ud'
           \<and> d \<notin> fst ` set (checkins ud')"
  using assms
  by (simp add: toggleCheckin_local_def Let_def stored_users_def update_conv' delete_notin_dom)

lemma toggleCheckin_no_empty_day:
  assumes "no_empty_day usersData"
  shows "no_empty_day (snd (toggleCheckin a u d (c, usersData)))"
proof (cases "map_of usersData u")
  case None
  then show ?thesis by (simp add: toggleCheckin_def no_empty_day_Nil)
next
  case (Some ud)
  then have mem: "(u, ud) \<in> set usersData" by (rule map_of_SomeD)
  let ?cur = "currentCheckins_of (map_of (checkins ud) d)"
  show ?thesis
  proof (cases "a \<in> set ?cur")
    case False
    obtain r c1 where post: "post_api_checkin u d a c = (r, c1)" by fastforce
    show ?thesis
    proof (cases "r = Success")
      case True
      show ?thesis
      proof (cases "map_of (checkins ud) d")
        case None
        with Some False post True no_empty_day_update_day [OF assms mem, of "[a]" d]
        show ?thesis by (simp add: toggleCheckin_def Let_def)
      next
        case (Some v)
        show ?thesis
        proof (cases v)
          case (Str s)
          with \<open>map_of usersData u = Some ud\<close> Some False post True assms
            no_empty_day_update_day [OF assms mem, of "[a]" d]
          show ?thesis by (simp add: toggleCheckin_def Let_def)
        next
          case (Arr xs)
          with \<open>map_of usersData u = Some ud\<close> Some False post True
            no_empty_day_update_day [OF assms mem, of "xs @ [a]" d]
          show ?thesis by (simp add: toggleCheckin_def Let_def)
        qed
      qed
    next
      case refused: False
      with Some False post assms show ?thesis
        by (cases r) (simp_all add: toggleCheckin_def Let_def)
    qed
  next
    case True
    obtain r c1 where del: "delete_api_checkin u d a c = (r, c1)" by fastforce
    show ?thesis
    proof (cases "r = Success")
      case ok: True
      show ?thesis
      proof (cases "remove1 a ?cur = []")
        case True
        with Some \<open>a \<in> set ?cur\<close> del ok no_empty_day_delete_day [OF assms mem, of d]
        show ?thesis by (simp add: toggleCheckin_def Let_def)
      next
        case False
        with Some \<open>a \<in> set ?cur\<close> del ok no_empty_day_update_day [OF assms mem False, of d]
        show ?thesis by (simp add: toggleCheckin_def Let_def)
      qed
    next
      case False
      with Some True del assms show ?thesis
        by (cases r) (simp_all add: toggleCheckin_def Let_def)
    qed
  qed
qed

lemma toggleCheckin_removes_sole:
  assumes "map_of usersData u = Some ud"
    and "currentCheckins_of (map_of (checkins ud) d) = [a]"
    and "fst (delete_api_checkin u d a c) = Success"
  shows "\<exists>ud'. map_of (snd (toggleCheckin a u d (c, usersData))) u = Some ud'
           \<and> d \<notin> fst ` set (checkins ud')"
proof -
  obtain c1 where "delete_api_checkin u d a c = (Success, c1)"
    using assms(3) by (cases "delete_api_checkin u d a c") simp
  with assms(1,2) show ?thesis
    by (simp add: toggleCheckin_def Let_def update_conv' delete_notin_dom)
qed

lemma no_empty_day_to_json: "no_empty_day (to_json (snapshot_of c))"
proof -
  have "well_formed (snapshot_of c)" by (rule well_formed_snapshot_of)
  then show ?thesis
    by (fastforce simp: no_empty_day_def to_json_def well_formed_def well_formed_days_def)
qed

lemma delete_api_checkin_Success:
  assumes "delete_api_checkin u d a c = (Success, c')"
  shows "tbl_users c' = tbl_users c
       \<and> tbl_checkins c' = filter (\<lambda>r. r \<noteq> (u, d, a)) (tbl_checkins c)"
  using assms
  by (auto simp: delete_api_checkin_def sql_delete_checkin_def next_fault_eq
      split: if_splits list.splits bool.splits)

lemma delete_api_checkin_removes_sole:
  assumes "delete_api_checkin u d a c = (Success, c')"
    and "\<forall>a'. (u, d, a') \<in> set (tbl_checkins c) \<longrightarrow> a' = a"
    and "map_of (snapshot_of c') u = Some ud"
  shows "d \<notin> fst ` set (checkins ud)"
proof -
  from delete_api_checkin_Success [OF assms(1)] assms(2)
  have "\<forall>a'. (u, d, a') \<notin> set (tbl_checkins c')" by auto
  with assemble_dates [OF assms(3) [unfolded snapshot_of_def assembly_of_def]]
  show ?thesis by auto
qed
section \<open>Adding a check-in\<close>

text \<open>
  C3. After a successful \<open>addCheckin u d a\<close>, and whenever the check-in \<open>(u, d, a)\<close> is
  stored (with the three fields non-empty, as the handler asks of every request), another
  \<open>addCheckin u d a\<close> leaves both tables (and an open transaction's snapshot) exactly as they
  were, whatever the store does; when the store does not fail on the look-up, the call is
  answered with \<open>Conflict\<close>.
\<close>

theorem addCheckin_twice_conflict:
  assumes "post_api_checkin u d a c0 = (Success, c)
         \<or> ((u, d, a) \<in> set (tbl_checkins c) \<and> u \<noteq> [] \<and> d \<noteq> [] \<and> a \<noteq> [])"
  shows "(u, d, a) \<in> set (tbl_checkins c)
       \<and> tbl_users (snd (post_api_checkin u d a c)) = tbl_users c
       \<and> tbl_checkins (snd (post_api_checkin u d a c)) = tbl_checkins c
       \<and> saved (snd (post_api_checkin u d a c)) = saved c
       \<and> (fst (next_fault c) = False \<longrightarrow> fst (post_api_checkin u d a c) = Conflict)"
proof -
  from assms have stored: "(u, d, a) \<in> set (tbl_checkins c)"
    and fields: "u \<noteq> []" "d \<noteq> []" "a \<noteq> []"
    using post_api_checkin_Success [of u d a c0 c] by auto
  from post_api_checkin_existing [OF stored fields] stored show ?thesis by simp
qed

theorem addCheckin_twice_conflict_witness:
  "post_api_checkin ''bob'' ''2024-03-02'' ''paper'' ex_store =
     (Success, ex_store\<lparr>tbl_checkins := tbl_checkins ex_store @ [(''bob'', ''2024-03-02'', ''paper'')]\<rparr>)
   \<and> fst (post_api_checkin ''bob'' ''2024-03-02'' ''paper''
            (ex_store\<lparr>tbl_checkins := tbl_checkins ex_store @ [(''bob'', ''2024-03-02'', ''paper'')]\<rparr>))
       = Conflict
   \<and> tbl_checkins (snd (post_api_checkin ''bob'' ''2024-03-02'' ''paper''
            (ex_store\<lparr>tbl_checkins := tbl_checkins ex_store @ [(''bob'', ''2024-03-02'', ''paper'')]\<rparr>)))
       = tbl_checkins ex_store @ [(''bob'', ''2024-03-02'', ''paper'')]"
proof -
  have first: "post_api_checkin ''bob'' ''2024-03-02'' ''paper'' ex_store =
     (Success, ex_store\<lparr>tbl_checkins := tbl_checkins ex_store @ [(''bob'', ''2024-03-02'', ''paper'')]\<rparr>)"
    by (simp add: ex_store_def post_api_checkin_def sql_select_checkin_def
        sql_insert_checkin_def next_fault_def)
  have "fst (next_fault
     (ex_store\<lparr>tbl_checkins := tbl_checkins ex_store @ [(''bob'', ''2024-03-02'', ''paper'')]\<rparr>)) = False"
    by (simp add: ex_store_def next_fault_def)
  with addCheckin_twice_conflict [of "''bob''" "''2024-03-02''" "''paper''" ex_store] first
  show ?thesis by simp
qed

text \<open>
  C8 does not hold of the code. The read assembles the snapshot in a plain object, keyed by
  username, with one plain object of days per user. An account named \<^verbatim>\<open>__proto__\<close> therefore
  never becomes a key of the snapshot: after \<^verbatim>\<open>addCheckin\<close> has succeeded for it,
  \<^verbatim>\<open>GET /api/users\<close> answers the empty snapshot. And a date that is the name of a method
  every object inherits, such as \<^verbatim>\<open>constructor\<close>, makes the read fail: after \<^verbatim>\<open>addCheckin\<close> has
  succeeded for alice on that date, \<^verbatim>\<open>GET /api/users\<close> answers 500 for everybody.
\<close>

theorem checkin_hidden_after_add:
  "post_api_checkin ''__proto__'' ''2024-03-01'' ''paper'' ex_store_proto
     = (Success, ex_store_proto\<lparr>tbl_checkins := [(''__proto__'', ''2024-03-01'', ''paper'')]\<rparr>)
   \<and> fst (get_api_users
        (ex_store_proto\<lparr>tbl_checkins := [(''__proto__'', ''2024-03-01'', ''paper'')]\<rparr>)) = Inr []
   \<and> post_api_checkin ''alice'' ''constructor'' ''paper'' ex_store
     = (Success,
        ex_store\<lparr>tbl_checkins := tbl_checkins ex_store @ [(''alice'', ''constructor'', ''paper'')]\<rparr>)
   \<and> fst (get_api_users
        (ex_store\<lparr>tbl_checkins := tbl_checkins ex_store @ [(''alice'', ''constructor'', ''paper'')]\<rparr>))
     = Inl TypeError"
proof (intro conjI)
  show "post_api_checkin ''__proto__'' ''2024-03-01'' ''paper'' ex_store_proto
     = (Success, ex_store_proto\<lparr>tbl_checkins := [(''__proto__'', ''2024-03-01'', ''paper'')]\<rparr>)"
    by (simp add: ex_store_proto_def post_api_checkin_def sql_select_checkin_def
        sql_insert_checkin_def next_fault_def)
  show "fst (get_api_users
        (ex_store_proto\<lparr>tbl_checkins := [(''__proto__'', ''2024-03-01'', ''paper'')]\<rparr>)) = Inr []"
    by (simp add: get_api_users_def sql_select_users_def sql_select_checkins_def next_fault_def
        assemble_def add_user_def add_checkin_def day_push_def own_put_def array_index_def
        digit_def digits_value_def inherited_def object_prototype_methods_def respond_def
        ex_store_proto_def)
  show "post_api_checkin ''alice'' ''constructor'' ''paper'' ex_store
     = (Success,
        ex_store\<lparr>tbl_checkins := tbl_checkins ex_store @ [(''alice'', ''constructor'', ''paper'')]\<rparr>)"
    by (simp add: ex_store_def post_api_checkin_def sql_select_checkin_def
        sql_insert_checkin_def next_fault_def)
  show "fst (get_api_users
        (ex_store\<lparr>tbl_checkins := tbl_checkins ex_store @ [(''alice'', ''constructor'', ''paper'')]\<rparr>))
     = Inl TypeError"
    by (simp add: get_api_users_def sql_select_users_def sql_select_checkins_def next_fault_def
        assemble_def add_user_def add_checkin_def day_push_def own_put_def array_index_def
        digit_def digits_value_def inherited_def object_prototype_methods_def respond_def
        ex_store_def)
qed

text \<open>
  What the code does give: after a successful \<open>addCheckin u d a\<close> for a username other than
  \<^verbatim>\<open>__proto__\<close>, every snapshot that \<^verbatim>\<open>GET /api/users\<close> answers with has an entry for \<open>u\<close> whose
  check-ins have the key \<open>d\<close>, and the activities at \<open>d\<close> contain \<open>a\<close>; and on a reliable
  plain store, with an ordinary date, the read does answer.
\<close>

lemma checkin_visible_when_answered:
  assumes "post_api_checkin u d a c = (Success, c1)" and "u \<noteq> ''__proto__''"
    and "get_api_users c1 = (Inr snap, c2)"
  shows "\<exists>ud acts. map_of snap u = Some ud \<and> map_of (checkins ud) d = Some acts \<and> a \<in> set acts"
proof -
  from post_api_checkin_Success [OF assms(1)]
  have u: "u \<in> fst ` set (tbl_users c1)"
    and rows: "tbl_checkins c1 = tbl_checkins c @ [(u, d, a)]" by simp_all
  let ?before = "assemble (tbl_users c1) (tbl_checkins c)"
  have after: "assembly_of c1 = add_checkin ?before (u, d, a)"
    by (simp add: assembly_of_def rows assemble_def)
  from u assms(2) have "u \<in> fst ` set (own_users ?before)" by (simp add: keys_assemble)
  moreover from get_api_users_Inr [OF assms(3)]
  have snap: "snap = snapshot_of c1" and "halted (add_checkin ?before (u, d, a)) = None"
    by (simp_all add: after)
  ultimately show ?thesis
    using add_checkin_visible [of ?before u d a] by (simp add: snap snapshot_of_def after)
qed

lemma checkin_read_answers:
  assumes "post_api_checkin u d a c = (Success, c1)" and "reliable c1" and "plain_store c"
    and "ordinary_name d"
  shows "\<exists>c2. get_api_users c1 = (Inr (snapshot_of c1), c2)"
proof -
  from post_api_checkin_Success [OF assms(1)]
  have "u \<in> fst ` set (tbl_users c)" and "tbl_users c1 = tbl_users c"
    and "tbl_checkins c1 = tbl_checkins c @ [(u, d, a)]" by simp_all
  with assms(3,4) have "plain_store c1" by (simp add: plain_store_def)
  from plain_store_respond [OF this] get_api_users_reliable [OF assms(2)]
  show ?thesis by auto
qed

section \<open>Deleting an account\<close>

text \<open>
  C1, as the code has it. Deleting the account \<open>u\<close> issues two statements outside any
  transaction. When both succeed, the account row and every check-in row of \<open>u\<close> are gone
  and every other row is untouched. When a statement fails, the account table is untouched
  and the check-ins are either untouched or those of \<open>u\<close> are already gone: the account is
  never removed while check-ins of \<open>u\<close> stay, but the check-ins can be removed while the
  account stays. On a reliable store the deletion succeeds.
\<close>

theorem delete_api_user_outcomes:
  assumes "delete_api_user u c = (r, c')"
  shows "saved c' = saved c \<and>
    ((r = Success \<and> tbl_users c' = filter (\<lambda>r. fst r \<noteq> u) (tbl_users c)
        \<and> tbl_checkins c' = filter (\<lambda>r. fst r \<noteq> u) (tbl_checkins c))
   \<or> (r = StoreFailure TransientStoreError \<and> tbl_users c' = tbl_users c
        \<and> (tbl_checkins c' = tbl_checkins c
           \<or> tbl_checkins c' = filter (\<lambda>r. fst r \<noteq> u) (tbl_checkins c))))
    \<and> (reliable c \<longrightarrow> r = Success)"
  using assms
  by (auto simp: delete_api_user_def sql_delete_checkins_of_def sql_delete_user_def
      next_fault_eq reliable_def split: list.splits bool.splits if_splits)

theorem delete_api_user_outcomes_witness:
  "delete_api_user ''alice'' ex_store =
     (Success, ex_store\<lparr>tbl_users := [(''bob'', ''2bb8'')],
                        tbl_checkins := [(''bob'', ''2024-03-01'', ''quant'')]\<rparr>)"
proof -
  have "reliable ex_store" by (simp add: reliable_def ex_store_def)
  moreover have "delete_api_user ''alice'' ex_store =
      (fst (delete_api_user ''alice'' ex_store), snd (delete_api_user ''alice'' ex_store))"
    by simp
  ultimately have "fst (delete_api_user ''alice'' ex_store) = Success"
    using delete_api_user_outcomes by blast
  moreover have "snd (delete_api_user ''alice'' ex_store) =
      ex_store\<lparr>tbl_users := [(''bob'', ''2bb8'')],
                tbl_checkins := [(''bob'', ''2024-03-01'', ''quant'')]\<rparr>"
    by (simp add: delete_api_user_def sql_delete_checkins_of_def sql_delete_user_def
        next_fault_def ex_store_def)
  ultimately show ?thesis by (simp add: prod_eq_iff)
qed

text \<open>
  C1 as stated fails: when the second statement fails, the deletion has completed in part.
  The account of \<open>alice\<close> is still there and the check-ins of \<open>alice\<close> are gone.
\<close>

theorem delete_api_user_partial_counterexample:
  "fst (delete_api_user ''alice'' ex_store_failing) = StoreFailure TransientStoreError
   \<and> tbl_users (snd (delete_api_user ''alice'' ex_store_failing)) = tbl_users ex_store_failing
   \<and> tbl_checkins (snd (delete_api_user ''alice'' ex_store_failing))
       = [(''bob'', ''2024-03-01'', ''quant'')]
   \<and> tbl_checkins (snd (delete_api_user ''alice'' ex_store_failing))
       \<noteq> tbl_checkins ex_store_failing"
  by (simp add: delete_api_user_def sql_delete_checkins_of_def sql_delete_user_def
      next_fault_def ex_store_failing_def ex_store_def)

section \<open>Importing a snapshot\<close>

text \<open>
  C2. An import runs in one transaction. Whatever snapshot is posted and whatever the store
  does, the import either succeeds, and then the two tables hold exactly the accounts and
  the check-ins of the snapshot (every entry of the snapshot has its account row, every
  activity of every day its check-in row, in the order of the snapshot, and nothing of the
  old store is left), or it fails, and then both tables are exactly what they were before
  the import; in both cases no transaction is left open. On a reliable store the import of
  every snapshot whose entries all have a password succeeds. On a reliable store the
  import of the empty snapshot succeeds, leaves both tables empty, and the export that
  follows answers the empty snapshot.
\<close>

theorem importSnapshot_atomic:
  "(\<forall>r c'. post_api_import body c = (r, c') \<longrightarrow>
      saved c' = None \<and>
      ((r = Success \<and> tbl_users c' = body_users body \<and> tbl_checkins c' = body_rows body
          \<and> map fst (body_users body) = map fst body)
       \<or> ((\<exists>e. r = StoreFailure e) \<and> tbl_users c' = tbl_users c
           \<and> tbl_checkins c' = tbl_checkins c)))
   \<and> (reliable c \<longrightarrow> distinct (map fst body) \<longrightarrow>
        (\<forall>entry \<in> set body. body_password (snd entry) \<noteq> None) \<longrightarrow>
        (\<exists>c'. post_api_import body c = (Success, c') \<and> saved c' = None
            \<and> tbl_users c' = body_users body \<and> tbl_checkins c' = body_rows body
            \<and> map fst (tbl_users c') = map fst body))
   \<and> (reliable c \<longrightarrow>
        (\<exists>c'. post_api_import [] c = (Success, c') \<and> tbl_users c' = [] \<and> tbl_checkins c' = []
            \<and> (\<exists>c''. get_api_export c' = (Inr [], c''))))"
proof -
  have outcome: "saved c' = None \<and>
      ((r = Success \<and> tbl_users c' = body_users b \<and> tbl_checkins c' = body_rows b
          \<and> map fst (body_users b) = map fst b)
       \<or> ((\<exists>e. r = StoreFailure e) \<and> tbl_users c' = tbl_users c
           \<and> tbl_checkins c' = tbl_checkins c))"
    if run: "post_api_import b c = (r, c')" for b r c'
  proof (cases "r = Success")
    case True
    with run obtain c1 where "import_statements b (begin_txn c) = (None, c1)"
      by (auto simp: post_api_import_def split: option.splits prod.splits)
    from import_statements_None_passwords [OF this] post_api_import_outcomes [OF run] True
    show ?thesis by auto
  next
    case False
    with post_api_import_outcomes [OF run] show ?thesis by auto
  qed
  have succeeds: "\<exists>c'. post_api_import b c = (Success, c') \<and> reliable c' \<and> saved c' = None
            \<and> tbl_users c' = body_users b \<and> tbl_checkins c' = body_rows b
            \<and> map fst (tbl_users c') = map fst b"
    if "reliable c" and "distinct (map fst b)"
      and "\<forall>entry \<in> set b. body_password (snd entry) \<noteq> None" for b
  proof -
    from post_api_import_reliable [OF that] obtain c'
      where run: "post_api_import b c = (Success, c')" and r: "reliable c'" by blast
    from outcome [OF run] run r show ?thesis by auto
  qed
  have empty: "\<exists>c'. post_api_import [] c = (Success, c') \<and> tbl_users c' = []
        \<and> tbl_checkins c' = [] \<and> (\<exists>c''. get_api_export c' = (Inr [], c''))"
    if "reliable c"
  proof -
    from succeeds [OF that, of "[]"] obtain c'
      where run: "post_api_import [] c = (Success, c')" and r: "reliable c'"
        and tables: "tbl_users c' = []" "tbl_checkins c' = []"
      by (auto simp: body_users_def body_rows_def)
    from tables have "respond (assembly_of c') = Inr []"
      by (simp add: assembly_of_def assemble_def respond_def)
    with get_api_export_reliable [OF r] have "\<exists>c''. get_api_export c' = (Inr [], c'')"
      by auto
    with run tables show ?thesis by blast
  qed
  from outcome succeeds empty show ?thesis by blast
qed

theorem importSnapshot_atomic_witness:
  "reliable ex_store
   \<and> distinct (map fst ex_body)
   \<and> list_all (\<lambda>entry. body_password (snd entry) \<noteq> None) ex_body
   \<and> (\<exists>c'. post_api_import ex_body ex_store = (Success, c') \<and> saved c' = None
        \<and> tbl_users c' = [(''carol'', ''9f86''), (''dave'', ''1a2b'')]
        \<and> tbl_checkins c' = [(''carol'', ''2024-03-05'', ''paper''),
                              (''carol'', ''2024-03-05'', ''quant''),
                              (''carol'', ''2024-03-06'', ''fitness'')])
   \<and> fst (post_api_import ex_body_incomplete ex_store) = StoreFailure NotNullViolation
   \<and> tbl_users (snd (post_api_import ex_body_incomplete ex_store)) = tbl_users ex_store
   \<and> tbl_checkins (snd (post_api_import ex_body_incomplete ex_store)) = tbl_checkins ex_store
   \<and> (\<exists>c'. post_api_import [] ex_store = (Success, c') \<and> tbl_users c' = []
          \<and> tbl_checkins c' = [] \<and> (\<exists>c''. get_api_export c' = (Inr [], c'')))"
proof -
  have r: "reliable ex_store" by (simp add: reliable_def ex_store_def)
  have d: "distinct (map fst ex_body)" by (simp add: ex_body_def)
  have p: "\<forall>entry \<in> set ex_body. body_password (snd entry) \<noteq> None"
    by (simp add: ex_body_def)
  have users: "body_users ex_body = [(''carol'', ''9f86''), (''dave'', ''1a2b'')]"
    by (simp add: body_users_def ex_body_def)
  have rows: "body_rows ex_body = [(''carol'', ''2024-03-05'', ''paper''),
                              (''carol'', ''2024-03-05'', ''quant''),
                              (''carol'', ''2024-03-06'', ''fitness'')]"
    by (simp add: body_rows_def day_rows_def ex_body_def)
  have fails: "post_api_import ex_body_incomplete ex_store =
     (StoreFailure NotNullViolation, snd (post_api_import ex_body_incomplete ex_store))"
    using ex_import_fails by (simp add: prod_eq_iff)
  from importSnapshot_atomic [of ex_body ex_store] r d p obtain c'
    where "post_api_import ex_body ex_store = (Success, c')" and "saved c' = None"
      and "tbl_users c' = body_users ex_body" and "tbl_checkins c' = body_rows ex_body"
    by blast
  with users rows
  have 1: "\<exists>c'. post_api_import ex_body ex_store = (Success, c') \<and> saved c' = None
        \<and> tbl_users c' = [(''carol'', ''9f86''), (''dave'', ''1a2b'')]
        \<and> tbl_checkins c' = [(''carol'', ''2024-03-05'', ''paper''),
                              (''carol'', ''2024-03-05'', ''quant''),
                              (''carol'', ''2024-03-06'', ''fitness'')]"
    by (intro exI [of _ c']) simp
  from importSnapshot_atomic [of ex_body_incomplete ex_store] fails
  have 2: "tbl_users (snd (post_api_import ex_body_incomplete ex_store)) = tbl_users ex_store
    \<and> tbl_checkins (snd (post_api_import ex_body_incomplete ex_store)) = tbl_checkins ex_store"
    by auto
  from importSnapshot_atomic [of "[]" ex_store] r
  have 3: "\<exists>c'. post_api_import [] ex_store = (Success, c') \<and> tbl_users c' = []
          \<and> tbl_checkins c' = [] \<and> (\<exists>c''. get_api_export c' = (Inr [], c''))"
    by blast
  from p have "list_all (\<lambda>entry. body_password (snd entry) \<noteq> None) ex_body"
    by (simp add: list_all_iff)
  with r d 1 ex_import_fails 2 3 show ?thesis by simp
qed

text \<open>What the import at the example leaves in the store, computed statement by statement:
  the old rows of alice and bob are gone, the legacy day of carol has become one row.\<close>

lemma ex_import_succeeds:
  "post_api_import ex_body ex_store =
     (Success,
      \<lparr>tbl_users = [(''carol'', ''9f86''), (''dave'', ''1a2b'')],
       tbl_checkins = [(''carol'', ''2024-03-05'', ''paper''),
                       (''carol'', ''2024-03-05'', ''quant''),
                       (''carol'', ''2024-03-06'', ''fitness'')],
       saved = None, faults = []\<rparr>)"
  by (simp add: post_api_import_def import_statements_def ex_body_def ex_store_def
      begin_txn_def commit_txn_def sql_delete_all_checkins_def sql_delete_all_users_def
      sql_insert_user_def sql_insert_checkin_def activityArray_def next_fault_def)

text \<open>
  C5, as the code has it. On the server, importing a snapshot is the same as importing the
  snapshot with every legacy day expanded to a one-element array: after a successful
  import the bare code of a legacy day is a check-in row of its own, and every day of
  every snapshot read back from the store is an array.
\<close>

theorem import_expands_legacy:
  "post_api_import body c = post_api_import (canonical_body body) c
   \<and> (\<forall>c' u ud days d s. post_api_import body c = (Success, c') \<longrightarrow> (u, ud) \<in> set body \<longrightarrow>
        body_checkins ud = Some days \<longrightarrow> (d, Str s) \<in> set days \<longrightarrow>
        (u, d, s) \<in> set (tbl_checkins c'))
   \<and> (\<forall>c' u ud d v. (u, ud) \<in> set (to_json (snapshot_of c')) \<longrightarrow> (d, v) \<in> set (checkins ud) \<longrightarrow>
        (\<exists>acts. v = Arr acts))"
  using post_api_import_canonical [of body c] post_api_import_outcomes [of body c]
    legacy_row_in_body_rows [of _ _ body] to_json_only_arrays
  by (intro conjI allI impI) (simp, fastforce, blast)

theorem import_expands_legacy_witness:
  "fst (post_api_import (to_body ex_legacy_snapshot) ex_store) = Success
   \<and> (''bob'', ''2024-03-01'', ''fitness'')
       \<in> set (tbl_checkins (snd (post_api_import (to_body ex_legacy_snapshot) ex_store)))"
proof -
  have run: "fst (post_api_import (to_body ex_legacy_snapshot) ex_store) = Success"
    by (simp add: post_api_import_def import_statements_def ex_legacy_snapshot_def to_body_def
        ex_store_def begin_txn_def sql_delete_all_checkins_def sql_delete_all_users_def
        sql_insert_user_def sql_insert_checkin_def activityArray_def next_fault_def)
  then have "post_api_import (to_body ex_legacy_snapshot) ex_store =
      (Success, snd (post_api_import (to_body ex_legacy_snapshot) ex_store))"
    by (simp add: prod_eq_iff)
  moreover have "(''bob'', \<lparr>body_password = Some ''2bb8'',
        body_checkins = Some [(''2024-03-01'', Str ''fitness'')]\<rparr>)
      \<in> set (to_body ex_legacy_snapshot)"
    by (simp add: to_body_def ex_legacy_snapshot_def)
  ultimately have "(''bob'', ''2024-03-01'', ''fitness'')
       \<in> set (tbl_checkins (snd (post_api_import (to_body ex_legacy_snapshot) ex_store)))"
    using import_expands_legacy [of "to_body ex_legacy_snapshot" ex_store] by force
  with run show ?thesis by simp
qed

text \<open>
  C5 as stated fails for the \<^verbatim>\<open>localStorage\<close> client: its import stores the parsed file as
  it is, so a legacy day stays a bare code in the store.
\<close>

theorem importData_local_keeps_legacy_counterexample:
  "stored_users (importData_local (Some ex_legacy_snapshot) True ex_local) =
     [(''bob'', \<lparr>password = ''2bb8'', checkins = [(''2024-03-01'', Str ''fitness'')]\<rparr>)]"
  by (simp add: importData_local_def stored_users_def ex_legacy_snapshot_def ex_local_def)

section \<open>Exporting\<close>


text \<open>
  What the code does give: the keys of every snapshot a read answers with are usernames of
  account rows (all of them but \<^verbatim>\<open>__proto__\<close>), and when no account is named \<^verbatim>\<open>__proto__\<close> and
  the usernames of the rows without an account are ordinary names, the assembly is that of
  the tables without those rows.
\<close>

lemma add_checkin_orphan:
  assumes "fst r \<notin> fst ` set (own_users st)" and "proto_user st = None"
    and "ordinary_name (fst r)"
  shows "add_checkin st r = st"
proof -
  obtain u d a where r: "r = (u, d, a)" by (cases r)
  with assms(1) have "map_of (own_users st) u = None" by (simp add: map_of_eq_None_iff)
  with assms(2,3) r show ?thesis
    by (simp add: add_checkin_def ordinary_name_def)
qed

lemma foldl_add_checkin_filter:
  assumes "proto_user st = None"
    and "\<forall>r \<in> set rs. fst r \<notin> fst ` set (own_users st) \<longrightarrow> ordinary_name (fst r)"
  shows "foldl add_checkin st (filter (\<lambda>r. fst r \<in> fst ` set (own_users st)) rs)
       = foldl add_checkin st rs"
  using assms
proof (induction rs arbitrary: st)
  case Nil
  show ?case by simp
next
  case (Cons r rs)
  show ?case
  proof (cases "fst r \<in> fst ` set (own_users st)")
    case True
    from Cons.prems have "proto_user (add_checkin st r) = None"
      by (intro proto_user_add_checkin_None)
    moreover from Cons.prems
    have "\<forall>r' \<in> set rs. fst r' \<notin> fst ` set (own_users (add_checkin st r))
            \<longrightarrow> ordinary_name (fst r')"
      by (simp add: keys_add_checkin)
    ultimately show ?thesis
      using Cons.IH [of "add_checkin st r"] True by (simp add: keys_add_checkin)
  next
    case False
    with Cons.prems have "add_checkin st r = st" by (intro add_checkin_orphan) simp_all
    with False Cons.IH [of st] Cons.prems show ?thesis by simp
  qed
qed

lemma assemble_omits_orphans:
  assumes "''__proto__'' \<notin> fst ` set us"
    and "\<forall>r \<in> set rs. fst r \<notin> fst ` set us \<longrightarrow> ordinary_name (fst r)"
  shows "assemble us (filter (\<lambda>r. fst r \<in> fst ` set us) rs) = assemble us rs"
proof -
  let ?st = "foldl add_user \<lparr>own_users = [], proto_user = None, halted = None\<rparr> us"
  from assms(1) have keys: "fst ` set (own_users ?st) = fst ` set us"
    by (simp add: keys_add_user)
  from assms(1) have "proto_user ?st = None" by (simp add: proto_user_foldl_add_user)
  from foldl_add_checkin_filter [OF this, of rs] assms(2) keys show ?thesis
    by (simp add: assemble_def)
qed


section \<open>Reading in the clients\<close>

text \<open>
  C6, as the code has it. The feed lists exactly the users whose value for the day is a
  non-empty array or a non-empty bare code, each with the day's activities, and the list is
  ordered by the comparison the sort is given, \<^verbatim>\<open>localeCompare\<close>: for every two entries, the
  earlier username is not after the later one in that comparison. This holds for every
  consistent comparison function, in both clients.
\<close>

theorem feed_sorted_by_localeCompare:
  assumes "consistent_comparator localeCompare"
  shows "sorted_wrt (\<lambda>a b. localeCompare a b \<le> 0)
           (map fst (updateTodayActivity localeCompare usersData today))
       \<and> (\<forall>u acts. (u, acts) \<in> set (updateTodayActivity localeCompare usersData today) \<longleftrightarrow>
             (\<exists>ud. (u, ud) \<in> set usersData \<and>
                ((map_of (checkins ud) today = Some (Arr acts) \<and> acts \<noteq> [])
                 \<or> (\<exists>s. map_of (checkins ud) today = Some (Str s) \<and> s \<noteq> [] \<and> acts = [s]))))
       \<and> length (updateTodayActivity localeCompare usersData today)
           = length (concat (map (today_entry today) usersData))
       \<and> updateTodayActivity_local localeCompare ls today
           = updateTodayActivity localeCompare (stored_users ls) today"
proof (intro conjI allI)
  from sorted_array_sort [OF consistent_comparator_fst [OF assms]]
  show "sorted_wrt (\<lambda>a b. localeCompare a b \<le> 0)
           (map fst (updateTodayActivity localeCompare usersData today))"
    by (simp add: updateTodayActivity_def sorted_wrt_map)
next
  fix u acts
  show "(u, acts) \<in> set (updateTodayActivity localeCompare usersData today) \<longleftrightarrow>
             (\<exists>ud. (u, ud) \<in> set usersData \<and>
                ((map_of (checkins ud) today = Some (Arr acts) \<and> acts \<noteq> [])
                 \<or> (\<exists>s. map_of (checkins ud) today = Some (Str s) \<and> s \<noteq> [] \<and> acts = [s])))"
    unfolding updateTodayActivity_def set_array_sort by (rule collected_iff)
next
  show "length (updateTodayActivity localeCompare usersData today)
           = length (concat (map (today_entry today) usersData))"
    unfolding updateTodayActivity_def by (rule length_array_sort)
next
  show "updateTodayActivity_local localeCompare ls today
           = updateTodayActivity localeCompare (stored_users ls) today"
    by (simp add: updateTodayActivity_local_def updateTodayActivity_def)
qed

theorem feed_sorted_by_localeCompare_witness:
  "consistent_comparator latin_localeCompare
   \<and> sorted_wrt (\<lambda>a b. latin_localeCompare a b \<le> 0)
        (map fst (updateTodayActivity latin_localeCompare ex_feed_users ''2024-03-01''))"
  using feed_sorted_by_localeCompare [OF consistent_latin_localeCompare]
    consistent_latin_localeCompare by simp

text \<open>
  C6 as stated fails: \<^verbatim>\<open>localeCompare\<close> is a collation, not the order of the code points.
  With \<open>Zoe\<close> and \<open>adam\<close> checked in, the feed lists \<open>adam\<close> first, while in code-point
  order every upper-case letter is before every lower-case one.
\<close>

theorem feed_not_code_point_sorted_counterexample:
  "map fst (updateTodayActivity latin_localeCompare ex_feed_users ''2024-03-01'')
     = [''adam'', ''Zoe'']
   \<and> \<not> sorted (map fst (updateTodayActivity latin_localeCompare ex_feed_users ''2024-03-01''))"
proof -
  have "map fst (updateTodayActivity latin_localeCompare ex_feed_users ''2024-03-01'')
     = [''adam'', ''Zoe'']"
    by (simp add: updateTodayActivity_def ex_feed_users_def today_entry_def array_sort_def
        latin_localeCompare_def primary_weight_def tertiary_weight_def is_upper_def)
  then show ?thesis by simp
qed

text \<open>
  C4, as the code has it. Where the stored value of a user's day is a bare code, the
  per-user query \<^verbatim>\<open>getTodayCheckin\<close> answers the one-element array of that code, and the
  feed (for a non-empty code) lists the user with that one-element array, in both clients.
  The server's export never holds a bare code: every day of it is an array. The export of
  the \<^verbatim>\<open>localStorage\<close> client is the stored snapshot itself.
\<close>

theorem legacy_day_read_paths:
  assumes "map_of usersData u = Some ud" and "map_of (checkins ud) d = Some (Str code)"
  shows "getTodayCheckin usersData u d = [code]
       \<and> (stored_users ls = usersData \<longrightarrow> getTodayCheckin_local ls u d = [code])
       \<and> (code \<noteq> [] \<longrightarrow> (u, [code]) \<in> set (updateTodayActivity cmp usersData d))
       \<and> (code \<noteq> [] \<longrightarrow> stored_users ls = usersData \<longrightarrow>
            (u, [code]) \<in> set (updateTodayActivity_local cmp ls d))
       \<and> (\<forall>c u' ud' d' v. (u', ud') \<in> set (to_json (snapshot_of c)) \<longrightarrow>
            (d', v) \<in> set (checkins ud') \<longrightarrow> (\<exists>acts. v = Arr acts))
       \<and> exportData_local ls = stored_users ls"
proof -
  from assms(1) have mem: "(u, ud) \<in> set usersData" by (rule map_of_SomeD)
  have feed: "(u, [code]) \<in> set (concat (map (today_entry d) usersData))" if "code \<noteq> []"
    using mem assms(2) that by (subst collected_iff) blast
  show ?thesis
  proof (intro conjI impI allI)
    show "getTodayCheckin usersData u d = [code]"
      using assms by (simp add: getTodayCheckin_def)
    show "getTodayCheckin_local ls u d = [code]" if "stored_users ls = usersData"
      using assms that by (simp add: getTodayCheckin_local_def)
    show "(u, [code]) \<in> set (updateTodayActivity cmp usersData d)" if "code \<noteq> []"
      using feed [OF that] by (simp add: updateTodayActivity_def set_array_sort)
    show "(u, [code]) \<in> set (updateTodayActivity_local cmp ls d)"
      if "code \<noteq> []" and "stored_users ls = usersData"
      using feed [OF that(1)] that(2)
      by (simp add: updateTodayActivity_local_def set_array_sort)
    show "\<exists>acts. v = Arr acts"
      if "(u', ud') \<in> set (to_json (snapshot_of c))" and "(d', v) \<in> set (checkins ud')"
      for c u' ud' d' v
      using that by (rule to_json_only_arrays)
    show "exportData_local ls = stored_users ls"
      by (simp add: exportData_local_def)
  qed
qed

theorem legacy_day_read_paths_witness:
  "getTodayCheckin ex_legacy_snapshot ''bob'' ''2024-03-01'' = [''fitness'']
   \<and> (''bob'', [''fitness''])
       \<in> set (updateTodayActivity latin_localeCompare ex_legacy_snapshot ''2024-03-01'')"
proof -
  have "map_of ex_legacy_snapshot ''bob''
      = Some \<lparr>password = ''2bb8'', checkins = [(''2024-03-01'', Str ''fitness'')]\<rparr>"
    by (simp add: ex_legacy_snapshot_def)
  from legacy_day_read_paths [OF this, of "''2024-03-01''" "''fitness''"]
  show ?thesis by simp
qed

text \<open>
  C4 as stated fails for the export of the \<^verbatim>\<open>localStorage\<close> client: it writes the stored
  bare code, not the one-element array.
\<close>

theorem exportData_local_keeps_legacy_counterexample:
  "exportData_local (ex_local\<lparr>users_item := Some ex_legacy_snapshot\<rparr>) =
     [(''bob'', \<lparr>password = ''2bb8'', checkins = [(''2024-03-01'', Str ''fitness'')]\<rparr>)]
   \<and> exportData_local (ex_local\<lparr>users_item := Some ex_legacy_snapshot\<rparr>) \<noteq>
     [(''bob'', \<lparr>password = ''2bb8'', checkins = [(''2024-03-01'', Arr [''fitness''])]\<rparr>)]"
  by (simp add: exportData_local_def stored_users_def ex_legacy_snapshot_def ex_local_def)

section \<open>Days without activities\<close>

text \<open>
  C7, as the code has it. Toggling off the only activity of a day removes the day key from
  the user's check-ins: in the \<^verbatim>\<open>localStorage\<close> client, in the cache of the server-backed
  client (when the server accepts the removal), and in the snapshot the server assembles
  after the row is deleted. No day with the empty array comes into being by a toggle in
  either client, by deleting a user or by clearing the data, and no snapshot assembled by
  the server ever has one.
\<close>

theorem no_empty_day_after_toggle:
  "(\<forall>ud. map_of (stored_users ls) u = Some ud \<longrightarrow>
        currentCheckins_of (map_of (checkins ud) d) = [a] \<longrightarrow>
        (\<exists>ud'. map_of (stored_users (toggleCheckin_local a u d ls)) u = Some ud'
           \<and> d \<notin> fst ` set (checkins ud')))
   \<and> (\<forall>ud. map_of usersData u = Some ud \<longrightarrow>
        currentCheckins_of (map_of (checkins ud) d) = [a] \<longrightarrow>
        fst (delete_api_checkin u d a c) = Success \<longrightarrow>
        (\<exists>ud'. map_of (snd (toggleCheckin a u d (c, usersData))) u = Some ud'
           \<and> d \<notin> fst ` set (checkins ud')))
   \<and> (\<forall>c' ud. delete_api_checkin u d a c = (Success, c') \<longrightarrow>
        (\<forall>a'. (u, d, a') \<in> set (tbl_checkins c) \<longrightarrow> a' = a) \<longrightarrow>
        map_of (snapshot_of c') u = Some ud \<longrightarrow> d \<notin> fst ` set (checkins ud))
   \<and> (no_empty_day (stored_users ls) \<longrightarrow>
        no_empty_day (stored_users (toggleCheckin_local a u d ls)))
   \<and> (no_empty_day usersData \<longrightarrow> no_empty_day (snd (toggleCheckin a u d (c, usersData))))
   \<and> no_empty_day (to_json (snapshot_of c))
   \<and> (no_empty_day (stored_users ls) \<longrightarrow>
        no_empty_day (stored_users (deleteUser_local u confirmed currentUser ls)))
   \<and> (no_empty_day (stored_users ls) \<longrightarrow>
        no_empty_day (stored_users (clearAllData_local confirmed confirmed_again ls)))"
proof (intro conjI allI impI)
  show "\<exists>ud'. map_of (stored_users (toggleCheckin_local a u d ls)) u = Some ud'
           \<and> d \<notin> fst ` set (checkins ud')"
    if "map_of (stored_users ls) u = Some ud"
      and "currentCheckins_of (map_of (checkins ud) d) = [a]" for ud
    using that by (rule toggleCheckin_local_removes_sole)
  show "\<exists>ud'. map_of (snd (toggleCheckin a u d (c, usersData))) u = Some ud'
           \<and> d \<notin> fst ` set (checkins ud')"
    if "map_of usersData u = Some ud"
      and "currentCheckins_of (map_of (checkins ud) d) = [a]"
      and "fst (delete_api_checkin u d a c) = Success" for ud
    using that by (rule toggleCheckin_removes_sole)
  show "d \<notin> fst ` set (checkins ud)"
    if "delete_api_checkin u d a c = (Success, c')"
      and "\<forall>a'. (u, d, a') \<in> set (tbl_checkins c) \<longrightarrow> a' = a"
      and "map_of (snapshot_of c') u = Some ud" for c' ud
    using that by (rule delete_api_checkin_removes_sole)
  show "no_empty_day (stored_users (toggleCheckin_local a u d ls))"
    if "no_empty_day (stored_users ls)"
    using that by (rule toggleCheckin_local_no_empty_day)
  show "no_empty_day (snd (toggleCheckin a u d (c, usersData)))" if "no_empty_day usersData"
    using that by (rule toggleCheckin_no_empty_day)
  show "no_empty_day (to_json (snapshot_of c))"
    by (rule no_empty_day_to_json)
  show "no_empty_day (stored_users (deleteUser_local u confirmed currentUser ls))"
    if "no_empty_day (stored_users ls)"
    using that no_empty_day_delete_user [OF that, of u]
    by (simp add: deleteUser_local_def Let_def stored_users_def)
  show "no_empty_day (stored_users (clearAllData_local confirmed confirmed_again ls))"
    if "no_empty_day (stored_users ls)"
    using that by (simp add: clearAllData_local_def stored_users_def no_empty_day_Nil)
qed

theorem no_empty_day_after_toggle_witness:
  "no_empty_day (stored_users (ex_local\<lparr>users_item := Some ex_legacy_snapshot\<rparr>))
   \<and> stored_users (toggleCheckin_local ''fitness'' ''bob'' ''2024-03-01''
        (ex_local\<lparr>users_item := Some ex_legacy_snapshot\<rparr>))
       = [(''bob'', \<lparr>password = ''2bb8'', checkins = []\<rparr>)]
   \<and> no_empty_day (stored_users (toggleCheckin_local ''fitness'' ''bob'' ''2024-03-01''
        (ex_local\<lparr>users_item := Some ex_legacy_snapshot\<rparr>)))"
proof -
  have before: "no_empty_day (stored_users (ex_local\<lparr>users_item := Some ex_legacy_snapshot\<rparr>))"
    by (simp add: no_empty_day_def stored_users_def ex_legacy_snapshot_def)
  have "stored_users (toggleCheckin_local ''fitness'' ''bob'' ''2024-03-01''
        (ex_local\<lparr>users_item := Some ex_legacy_snapshot\<rparr>))
       = [(''bob'', \<lparr>password = ''2bb8'', checkins = []\<rparr>)]"
    by (simp add: toggleCheckin_local_def stored_users_def ex_legacy_snapshot_def
        currentCheckins_of_def ex_local_def)
  with before no_empty_day_after_toggle
    [of "ex_local\<lparr>users_item := Some ex_legacy_snapshot\<rparr>" "''bob''" "''2024-03-01''"
      "''fitness''"]
  show ?thesis by blast
qed

text \<open>
  C7 as stated fails for the import of the \<^verbatim>\<open>localStorage\<close> client: it stores the parsed
  file as it is, so a file with an empty day leaves an entry with no activities in the
  store, where there was none before.
\<close>

theorem importData_local_empty_day_counterexample:
  "no_empty_day (stored_users ex_local)
   \<and> \<not> no_empty_day (stored_users (importData_local (Some ex_empty_day_snapshot) True ex_local))"
  by (simp add: no_empty_day_def stored_users_def importData_local_def ex_local_def
      ex_empty_day_snapshot_def)

end
